theory Spec2Isabelle
  imports Complex_Main "HOL-Library.Multiset" "HOL-Library.Product_Lexorder"
begin

section \<open>Outlier-detection engine of \<^verbatim>\<open>src/index.js\<close>\<close>

text \<open>
  The engine computes with JavaScript numbers, the binary64 numbers of IEEE 754. A number
  is a finite real, an infinity or \<^verbatim>\<open>NaN\<close>, and every arithmetic operation rounds its exact
  result to the nearest binary64 number, ties to the even significand, and overflows to an
  infinity. The two zeros are one number here: the comparisons of the language take them as
  equal and the engine guards each of its divisors against zero, so no operation of it tells
  them apart. Row indices are \<^typ>\<open>int\<close> (the parser numbers the rows from 0, Grubbs' test
  starts from \<^verbatim>\<open>-1\<close>).
\<close>

subsection \<open>Binary64 numbers\<close>

text \<open>
  Rounding a real to the nearest integer, ties to the even one; the binade of a real, at
  least that of the smallest normal number; the unit in the last place of a binade, for 53
  significant bits; and the rounding of a real to that grid.
\<close>

definition round_half_even :: "real \<Rightarrow> int" where
  "round_half_even q =
     (let f = \<lfloor>q\<rfloor>; r = q - of_int f
      in if r < 1 / 2 then f else if r > 1 / 2 then f + 1 else if even f then f else f + 1)"

definition binade :: "real \<Rightarrow> int" where
  "binade x = max \<lfloor>log 2 \<bar>x\<bar>\<rfloor> (- 1022)"

definition ulp :: "real \<Rightarrow> real" where
  "ulp x = 2 powr (of_int (binade x) - 52)"

definition f64_round :: "real \<Rightarrow> real" where
  "f64_round x = (if x = 0 then 0 else of_int (round_half_even (x / ulp x)) * ulp x)"

definition min_subnormal :: real where
  "min_subnormal = 2 powr (- 1074)"

datatype js_number = Finite real | PosInf | NegInf | NaN

text \<open>
  The result of an operation whose exact value is \<open>x\<close>: the rounded value, or an infinity
  when the rounded value reaches \<open>2\<^sup>1\<^sup>0\<^sup>2\<^sup>4\<close>.
\<close>

definition overflow_threshold :: real where
  "overflow_threshold = 2 ^ 1024"

definition js_round :: "real \<Rightarrow> js_number" where
  "js_round x =
     (let r = f64_round x
      in if overflow_threshold \<le> r then PosInf
         else if r \<le> - overflow_threshold then NegInf
         else Finite r)"

text \<open>The number that a decimal literal of the source denotes, and the length of an array.\<close>

definition js_literal :: "real \<Rightarrow> js_number" where
  "js_literal x = js_round x"

definition js_of_nat :: "nat \<Rightarrow> js_number" where
  "js_of_nat n = Finite (real n)"

text \<open>
  The order of the numbers for sorting and for the maximum of a list: \<^verbatim>\<open>NaN\<close> below all,
  then \<open>-\<infinity>\<close>, the finite numbers and \<open>+\<infinity>\<close>. The comparisons \<^verbatim>\<open><\<close>, \<^verbatim>\<open>>\<close> and \<^verbatim>\<open>===\<close>
  are false as soon as one side is \<^verbatim>\<open>NaN\<close>.
\<close>

fun js_key :: "js_number \<Rightarrow> nat \<times> real" where
  "js_key NaN = (0, 0)"
| "js_key NegInf = (1, 0)"
| "js_key (Finite x) = (2, x)"
| "js_key PosInf = (3, 0)"

definition js_lt :: "js_number \<Rightarrow> js_number \<Rightarrow> bool" where
  "js_lt a b \<longleftrightarrow> a \<noteq> NaN \<and> b \<noteq> NaN \<and> js_key a < js_key b"

definition js_gt :: "js_number \<Rightarrow> js_number \<Rightarrow> bool" where
  "js_gt a b \<longleftrightarrow> js_lt b a"

definition js_eq :: "js_number \<Rightarrow> js_number \<Rightarrow> bool" where
  "js_eq a b \<longleftrightarrow> a \<noteq> NaN \<and> a = b"

text \<open>
  Addition, subtraction, multiplication, division, \<^verbatim>\<open>Math.sqrt\<close>, \<^verbatim>\<open>Math.abs\<close> and
  \<^verbatim>\<open>Math.pow(x, 2)\<close>. The language leaves the accuracy of \<^verbatim>\<open>Math.pow\<close> to the
  implementation; here it is the rounded square, the product of \<open>x\<close> with itself. A
  division by zero takes the zero as positive; the engine guards each of its divisors
  against zero.
\<close>

definition js_negative :: "js_number \<Rightarrow> bool" where
  "js_negative a = (case a of Finite x \<Rightarrow> x < 0 | NegInf \<Rightarrow> True | _ \<Rightarrow> False)"

fun js_neg :: "js_number \<Rightarrow> js_number" where
  "js_neg (Finite x) = Finite (- x)"
| "js_neg PosInf = NegInf"
| "js_neg NegInf = PosInf"
| "js_neg NaN = NaN"

fun js_add :: "js_number \<Rightarrow> js_number \<Rightarrow> js_number" where
  "js_add (Finite x) (Finite y) = js_round (x + y)"
| "js_add NaN b = NaN"
| "js_add a NaN = NaN"
| "js_add PosInf NegInf = NaN"
| "js_add NegInf PosInf = NaN"
| "js_add PosInf b = PosInf"
| "js_add NegInf b = NegInf"
| "js_add a PosInf = PosInf"
| "js_add a NegInf = NegInf"

definition js_sub :: "js_number \<Rightarrow> js_number \<Rightarrow> js_number" where
  "js_sub a b = js_add a (js_neg b)"

definition js_mul :: "js_number \<Rightarrow> js_number \<Rightarrow> js_number" where
  "js_mul a b =
     (case (a, b) of
        (Finite x, Finite y) \<Rightarrow> js_round (x * y)
      | _ \<Rightarrow>
          if a = NaN \<or> b = NaN \<or> a = Finite 0 \<or> b = Finite 0 then NaN
          else if js_negative a = js_negative b then PosInf else NegInf)"

definition js_div :: "js_number \<Rightarrow> js_number \<Rightarrow> js_number" where
  "js_div a b =
     (case (a, b) of
        (Finite x, Finite y) \<Rightarrow>
          if y = 0 then (if x = 0 then NaN else if 0 < x then PosInf else NegInf)
          else js_round (x / y)
      | (Finite x, PosInf) \<Rightarrow> Finite 0
      | (Finite x, NegInf) \<Rightarrow> Finite 0
      | (PosInf, Finite y) \<Rightarrow> if y < 0 then NegInf else PosInf
      | (NegInf, Finite y) \<Rightarrow> if y < 0 then PosInf else NegInf
      | _ \<Rightarrow> NaN)"

fun js_sqrt :: "js_number \<Rightarrow> js_number" where
  "js_sqrt (Finite x) = (if x < 0 then NaN else js_round (sqrt x))"
| "js_sqrt PosInf = PosInf"
| "js_sqrt NegInf = NaN"
| "js_sqrt NaN = NaN"

fun js_abs :: "js_number \<Rightarrow> js_number" where
  "js_abs (Finite x) = Finite \<bar>x\<bar>"
| "js_abs PosInf = PosInf"
| "js_abs NegInf = PosInf"
| "js_abs NaN = NaN"

definition js_pow2 :: "js_number \<Rightarrow> js_number" where
  "js_pow2 a = js_mul a a"

subsection \<open>Data model\<close>

text \<open>The object returned by \<^verbatim>\<open>getStats\<close>.\<close>

record Statistics =
  q1 :: js_number
  q3 :: js_number
  iqr :: js_number
  mean :: js_number
  stdDev :: js_number
  median :: js_number
  mad :: js_number

subsection \<open>Statistics calculator\<close>

text \<open>
  \<^verbatim>\<open>Math.floor(n / 4)\<close>, \<^verbatim>\<open>Math.floor(n / 2)\<close> and \<^verbatim>\<open>Math.floor((n * 3) / 4)\<close> on the
  length of an array.
\<close>

definition floor_div :: "nat \<Rightarrow> nat \<Rightarrow> nat" where
  "floor_div a b = nat \<lfloor>real a / real b\<rfloor>"

text \<open>\<^verbatim>\<open>xs.reduce((a, b) => a + b, 0)\<close>\<close>

definition reduce_add :: "js_number list \<Rightarrow> js_number" where
  "reduce_add xs = foldl (\<lambda>a b. js_add a b) (Finite 0) xs"

text \<open>
  \<^verbatim>\<open>[...xs].sort((a, b) => a - b)\<close>: on numbers without \<^verbatim>\<open>NaN\<close> the comparator is
  negative exactly when \<open>a < b\<close>, and the sort is the stable ascending one.
\<close>

definition sort_ascending :: "js_number list \<Rightarrow> js_number list" where
  "sort_ascending xs = sort_key js_key xs"

definition getStats :: "js_number list \<Rightarrow> Statistics" where
  "getStats data =
     (if length data = 0
      then \<lparr>q1 = Finite 0, q3 = Finite 0, iqr = Finite 0, mean = Finite 0, stdDev = Finite 0,
            median = Finite 0, mad = Finite 0\<rparr>
      else
        let sorted = sort_ascending data;
            n = length sorted;
            q1 = sorted ! floor_div n 4;
            median = sorted ! floor_div n 2;
            q3 = sorted ! floor_div (n * 3) 4;
            iqr = js_sub q3 q1;
            mean = js_div (reduce_add data) (js_of_nat n);
            stdDev = js_sqrt (js_div (reduce_add (map (\<lambda>x. js_pow2 (js_sub x mean)) data))
                                (js_of_nat n));
            residuals = map (\<lambda>x. js_abs (js_sub x median)) data;
            sortedResiduals = sort_ascending residuals;
            mad = sortedResiduals ! floor_div (length sortedResiduals) 2
        in \<lparr>q1 = q1, q3 = q3, iqr = iqr, mean = mean, stdDev = stdDev,
            median = median, mad = mad\<rparr>)"

subsection \<open>Detection algorithms\<close>

text \<open>
  One entry of a column view, \<^verbatim>\<open>{ value: dp.values[i], index: dp.index }\<close>. The source
  calls such an entry \<^verbatim>\<open>d\<close>.
\<close>

record Datum =
  d_value :: js_number
  d_index :: int

definition findOutliersIQR :: "Datum list \<Rightarrow> int list" where
  "findOutliersIQR columnData =
     (let values = map d_value columnData;
          s = getStats values;
          lowerBound = js_sub (q1 s) (js_mul (js_literal 1.5) (iqr s));
          upperBound = js_add (q3 s) (js_mul (js_literal 1.5) (iqr s))
      in map d_index
           (filter (\<lambda>d. js_lt (d_value d) lowerBound \<or> js_gt (d_value d) upperBound)
              columnData))"

text \<open>
  A parameter with a default value is an \<^typ>\<open>'a option\<close>: \<^const>\<open>None\<close> is the call that
  leaves the argument out, as the orchestrator does.
\<close>

definition findOutliersZScore :: "Datum list \<Rightarrow> js_number option \<Rightarrow> int list" where
  "findOutliersZScore columnData threshold_arg =
     (let threshold = (case threshold_arg of None \<Rightarrow> js_literal 3.0 | Some t \<Rightarrow> t);
          values = map d_value columnData;
          s = getStats values
      in if js_eq (stdDev s) (Finite 0) then []
         else map d_index
                (filter (\<lambda>d. js_gt (js_abs (js_div (js_sub (d_value d) (mean s)) (stdDev s)))
                                threshold)
                   columnData))"

definition findOutliersModifiedZScore :: "Datum list \<Rightarrow> js_number option \<Rightarrow> int list" where
  "findOutliersModifiedZScore columnData threshold_arg =
     (let threshold = (case threshold_arg of None \<Rightarrow> js_literal 3.5 | Some t \<Rightarrow> t);
          values = map d_value columnData;
          s = getStats values
      in if js_eq (mad s) (Finite 0) then []
         else map d_index
                (filter (\<lambda>d. js_gt (js_abs (js_div (js_mul (js_literal 0.6745)
                                                        (js_sub (d_value d) (median s)))
                                                (mad s)))
                                threshold)
                   columnData))"

text \<open>
  The body of the \<^verbatim>\<open>forEach\<close> of Grubbs' test, on the pair of the two variables it
  assigns, \<^verbatim>\<open>(maxDev, outlierIndex)\<close>.
\<close>

definition grubbs_step ::
  "js_number \<Rightarrow> js_number \<Rightarrow> js_number \<times> int \<Rightarrow> Datum \<Rightarrow> js_number \<times> int" where
  "grubbs_step mean_v stdDev_v acc d =
     (let dev = js_div (js_abs (js_sub (d_value d) mean_v)) stdDev_v
      in if js_gt dev (fst acc) then (dev, d_index d) else acc)"

definition findOutliersGrubbs :: "Datum list \<Rightarrow> int list" where
  "findOutliersGrubbs columnData =
     (let values = map d_value columnData
      in if length values < 3 then []
         else
           let s = getStats values
           in if js_eq (stdDev s) (Finite 0) then []
              else
                let (maxDev, outlierIndex) =
                      foldl (grubbs_step (mean s) (stdDev s)) (Finite 0, - 1) columnData;
                    criticalValue = js_literal 2.0
                in if js_gt maxDev criticalValue then [outlierIndex] else [])"

text \<open>
  The body of the \<^verbatim>\<open>forEach\<close> of the ESD test, on the triple
  \<^verbatim>\<open>(maxDeviation, potentialOutlierIndex, dataIndexToRemove)\<close>; the callback receives the
  position \<^verbatim>\<open>idx\<close> and the entry \<^verbatim>\<open>d\<close>.
\<close>

definition esd_step ::
  "js_number \<Rightarrow> js_number \<Rightarrow> js_number \<times> int \<times> int \<Rightarrow> nat \<times> Datum
     \<Rightarrow> js_number \<times> int \<times> int" where
  "esd_step mean_v stdDev_v acc p =
     (let R = js_div (js_abs (js_sub (d_value (snd p)) mean_v)) stdDev_v
      in if js_gt R (fst acc) then (R, d_index (snd p), int (fst p)) else acc)"

text \<open>\<^verbatim>\<open>xs.splice(j, 1)\<close>: the array without position \<^verbatim>\<open>j\<close>.\<close>

definition splice1 :: "'a list \<Rightarrow> nat \<Rightarrow> 'a list" where
  "splice1 xs j = take j xs @ drop (Suc j) xs"

text \<open>
  The \<^verbatim>\<open>for\<close> loop of the ESD test. Its body does not read the counter \<^verbatim>\<open>i\<close>, so the
  first argument is the number of iterations that are left, \<^verbatim>\<open>maxOutliers - i\<close>; the
  other two are \<^verbatim>\<open>currentData\<close> and \<^verbatim>\<open>outliers\<close>. Every \<^verbatim>\<open>break\<close> returns the
  outliers recorded so far.
\<close>

fun esd_loop :: "nat \<Rightarrow> Datum list \<Rightarrow> Datum list \<Rightarrow> Datum list" where
  "esd_loop 0 currentData outliers = outliers"
| "esd_loop (Suc k) currentData outliers =
     (if length currentData < 3 then outliers
      else
        let s = getStats (map d_value currentData)
        in if js_eq (stdDev s) (Finite 0) then outliers
           else
             let (maxDeviation, potentialOutlierIndex, dataIndexToRemove) =
                   foldl (esd_step (mean s) (stdDev s)) (Finite (- 1), - 1, - 1)
                     (enumerate 0 currentData);
                 criticalValue = js_literal 2.5
             in if js_gt maxDeviation criticalValue \<and> dataIndexToRemove \<noteq> - 1
                then esd_loop k (splice1 currentData (nat dataIndexToRemove))
                       (outliers @ [currentData ! nat dataIndexToRemove])
                else outliers)"

text \<open>
  The default of \<^verbatim>\<open>maxOutliers\<close> is \<^verbatim>\<open>Math.floor(columnData.length * 0.1)\<close>. It is
  written with the exact product: the floor of the rounded product of an array length and
  the number that \<^verbatim>\<open>0.1\<close> denotes is the floor of the exact tenth of the length (lemma
  \<open>maxOutliers_rounded\<close> below).
\<close>

definition findOutliersESD :: "Datum list \<Rightarrow> nat option \<Rightarrow> int list" where
  "findOutliersESD columnData maxOutliers_arg =
     (let maxOutliers =
            (case maxOutliers_arg of
               None \<Rightarrow> nat \<lfloor>real (length columnData) * 0.1\<rfloor>
             | Some m \<Rightarrow> m)
      in if length columnData < 5 then []
         else map d_index (esd_loop maxOutliers columnData []))"

text \<open>
  The object literal \<^verbatim>\<open>Q_TABLE\<close>. \<^verbatim>\<open>Object.keys\<close> lists integer keys in ascending
  order, which is the order of the literal.
\<close>

definition Q_TABLE :: "(nat \<times> js_number) list" where
  "Q_TABLE =
     [(3, js_literal 0.970), (4, js_literal 0.829), (5, js_literal 0.710),
      (6, js_literal 0.625), (7, js_literal 0.568), (8, js_literal 0.526),
      (9, js_literal 0.493), (10, js_literal 0.466), (15, js_literal 0.338),
      (20, js_literal 0.298), (30, js_literal 0.239)]"

text \<open>
  \<^verbatim>\<open>Object.keys(Q_TABLE).reverse().find(key => n >= parseInt(key)) || 3\<close>
\<close>

definition dixon_key :: "nat \<Rightarrow> nat" where
  "dixon_key n =
     (case find (\<lambda>key. n \<ge> key) (rev (map fst Q_TABLE)) of
        Some key \<Rightarrow> key
      | None \<Rightarrow> 3)"

text \<open>
  \<^verbatim>\<open>[...columnData].sort((a, b) => a.value - b.value)\<close>, and the test. A key missing
  from the table would give \<^verbatim>\<open>undefined\<close>, and both comparisons with it are false:
  nothing is pushed.
\<close>

definition sort_by_value :: "Datum list \<Rightarrow> Datum list" where
  "sort_by_value columnData = sort_key (\<lambda>d. js_key (d_value d)) columnData"

definition findOutliersDixonQ :: "Datum list \<Rightarrow> int list" where
  "findOutliersDixonQ columnData =
     (let n = length columnData
      in if n < 3 \<or> n > 30 then []
         else
           let sortedData = sort_by_value columnData;
               qCrit_lookup = map_of Q_TABLE (dixon_key n);
               range = js_sub (d_value (sortedData ! (n - 1))) (d_value (sortedData ! 0))
           in if js_eq range (Finite 0) then []
              else
                let qLow = js_div (js_sub (d_value (sortedData ! 1)) (d_value (sortedData ! 0)))
                             range;
                    qHigh = js_div (js_sub (d_value (sortedData ! (n - 1)))
                                      (d_value (sortedData ! (n - 2))))
                              range
                in case qCrit_lookup of
                     None \<Rightarrow> []
                   | Some qCrit \<Rightarrow>
                       (if js_gt qLow qCrit then [d_index (sortedData ! 0)] else []) @
                       (if js_gt qHigh qCrit then [d_index (sortedData ! (n - 1))] else []))"

definition findOutliersPeirce :: "Datum list \<Rightarrow> int list" where
  "findOutliersPeirce columnData =
     findOutliersModifiedZScore columnData (Some (js_literal 4.0))"

subsection \<open>Method catalog\<close>

record Method =
  name :: string
  fn :: "Datum list \<Rightarrow> int list"
  description :: string

definition methods :: "Method list" where
  "methods =
     [\<lparr>name = ''Interquartile Range (IQR)'', fn = findOutliersIQR,
       description = ''Identifies outliers based on the spread of the middle 50% of the data.''\<rparr>,
      \<lparr>name = ''Z-Score Method'', fn = (\<lambda>columnData. findOutliersZScore columnData None),
       description = ''Flags data points that deviate significantly from the mean (typically > 3 standard deviations).''\<rparr>,
      \<lparr>name = ''Modified Z-Score Method'',
       fn = (\<lambda>columnData. findOutliersModifiedZScore columnData None),
       description = ''A robust version of Z-score using median and median absolute deviation, less sensitive to existing outliers.''\<rparr>,
      \<lparr>name = ''Grubbs' Test'', fn = findOutliersGrubbs,
       description = ''A statistical test to detect a single outlier in a normally distributed univariate dataset. (Simplified)''\<rparr>,
      \<lparr>name = ''Generalized ESD Test'', fn = (\<lambda>columnData. findOutliersESD columnData None),
       description = ''An iterative test to detect multiple outliers in a normally distributed dataset. (Simplified)''\<rparr>,
      \<lparr>name = ''Dixon's Q Test'', fn = findOutliersDixonQ,
       description = ''A test for single outliers in small datasets (n<30). (Simplified)''\<rparr>,
      \<lparr>name = ''Peirce's Criterion'', fn = findOutliersPeirce,
       description = ''An early, rigorous method for outlier rejection. (Conceptual proxy used)''\<rparr>]"

subsection \<open>Analysis orchestrator\<close>

record DataPoint =
  dp_index :: int
  dp_values :: "js_number list"

record DataSet =
  data :: "DataPoint list"
  headers :: "string list"
  dimensions :: nat

record OutlierRecord =
  o_index :: int
  o_value :: js_number
  o_point :: "js_number list"
  o_columnIndex :: nat

record AnalysisResult =
  methodName :: string
  r_description :: string
  outliers :: "OutlierRecord list"

text \<open>
  \<^verbatim>\<open>new Set(xs)\<close> adds the elements in order and skips one that is already in the set; a
  \<^verbatim>\<open>Set\<close> iterates in insertion order.
\<close>

definition js_Set :: "'a list \<Rightarrow> 'a list" where
  "js_Set xs = foldl (\<lambda>s x. if x \<in> set s then s else s @ [x]) [] xs"

text \<open>
  \<^verbatim>\<open>ds.data.map(dp => ({ value: dp.values[i], index: dp.index }))\<close>. Every point of a
  DataSet has \<^verbatim>\<open>dimensions\<close> values (the parser skips the other rows), so \<^verbatim>\<open>i\<close> is in
  range wherever the theorems below read it.
\<close>

definition columnData_of :: "DataSet \<Rightarrow> nat \<Rightarrow> Datum list" where
  "columnData_of ds i =
     map (\<lambda>dp. \<lparr>d_value = dp_values dp ! i, d_index = dp_index dp\<rparr>) (data ds)"

text \<open>
  The text of an integer in a template literal: decimal digits, after a minus sign for a
  negative number. (Row and column numbers stay far below \<open>10\<^sup>2\<^sup>1\<close>, where JavaScript
  changes to exponent notation.)
\<close>

definition digit :: "nat \<Rightarrow> char" where
  "digit d = ''0123456789'' ! d"

fun nat_string :: "nat \<Rightarrow> string" where
  "nat_string n = (if n < 10 then [digit n] else nat_string (n div 10) @ [digit (n mod 10)])"

definition number_string :: "int \<Rightarrow> string" where
  "number_string k = (if k < 0 then CHR ''-'' # nat_string (nat (- k)) else nat_string (nat k))"

text \<open>
  The \<^verbatim>\<open>Map\<close> of one method is a list of key and record in insertion order. The function
  is the callback of \<^verbatim>\<open>outlierIndices.forEach\<close>; its key is the template literal
  \<^verbatim>\<open>`${dataPoint.index}-${i}`\<close>.
\<close>

definition add_outlier ::
  "DataSet \<Rightarrow> nat \<Rightarrow> (string \<times> OutlierRecord) list \<Rightarrow> int
     \<Rightarrow> (string \<times> OutlierRecord) list" where
  "add_outlier ds i outliers_map index =
     (case find (\<lambda>dp. dp_index dp = index) (data ds) of
        None \<Rightarrow> outliers_map
      | Some dataPoint \<Rightarrow>
          let key = number_string (dp_index dataPoint) @ ''-'' @ number_string (int i)
          in if key \<in> set (map fst outliers_map) then outliers_map
             else outliers_map @
                    [(key, \<lparr>o_index = dp_index dataPoint, o_value = dp_values dataPoint ! i,
                            o_point = dp_values dataPoint, o_columnIndex = i\<rparr>)])"

text \<open>The body of the loop over the columns.\<close>

definition column_pass ::
  "Method \<Rightarrow> DataSet \<Rightarrow> (string \<times> OutlierRecord) list \<Rightarrow> nat
     \<Rightarrow> (string \<times> OutlierRecord) list" where
  "column_pass method ds outliers_map i =
     (let columnData = columnData_of ds i;
          outlierIndices = js_Set (fn method columnData)
      in foldl (add_outlier ds i) outliers_map outlierIndices)"

text \<open>The callback of \<^verbatim>\<open>methods.map\<close>.\<close>

definition analyse :: "DataSet \<Rightarrow> Method \<Rightarrow> AnalysisResult" where
  "analyse ds method =
     (let outliers_map = foldl (column_pass method ds) [] [0..<dimensions ds]
      in \<lparr>methodName = name method, r_description = description method,
          outliers = map snd outliers_map\<rparr>)"

definition runAllAnalyses :: "DataSet \<Rightarrow> AnalysisResult list" where
  "runAllAnalyses ds = map (analyse ds) methods"

subsection \<open>Notions of the specification\<close>

text \<open>
  A finite binary64 number: a real that rounding leaves as it is, below the overflow
  threshold.
\<close>

definition finite_double :: "js_number \<Rightarrow> bool" where
  "finite_double a =
     (case a of Finite x \<Rightarrow> f64_round x = x \<and> \<bar>x\<bar> < overflow_threshold | _ \<Rightarrow> False)"

text \<open>
  The z-deviation \<open>|value - mean| / stdDev\<close> of an entry, as the engine computes it, and
  the position of the first entry of a list that attains the maximum of the list. The
  maximum of a list of numbers is taken in the order of \<^const>\<open>js_key\<close>: \<^verbatim>\<open>NaN\<close>, which no
  comparison finds greater than anything, counts below every number.
\<close>

definition zdev :: "js_number \<Rightarrow> js_number \<Rightarrow> Datum \<Rightarrow> js_number" where
  "zdev mean_v stdDev_v d = js_div (js_abs (js_sub (d_value d) mean_v)) stdDev_v"

definition first_max_pos :: "('k :: linorder) list \<Rightarrow> nat" where
  "first_max_pos rs = length (takeWhile (\<lambda>r. r < Max (set rs)) rs)"

definition max_pos :: "js_number list \<Rightarrow> nat" where
  "max_pos devs = first_max_pos (map js_key devs)"

text \<open>
  The iteration of the Generalized ESD method in the words of the specification: at most
  \<open>k\<close> rounds; a round stops when fewer than 3 entries remain or the standard deviation of
  the remaining entries is 0; otherwise it takes the entry of maximal z-deviation among the
  remaining ones (the first one, if several attain it), and if that deviation exceeds 2.5 it
  records the entry, removes it and goes on with the rest; else it stops.
\<close>

fun esd_rounds :: "nat \<Rightarrow> Datum list \<Rightarrow> Datum list" where
  "esd_rounds 0 remaining = []"
| "esd_rounds (Suc k) remaining =
     (if length remaining < 3 then []
      else
        let s = getStats (map d_value remaining);
            devs = map (zdev (mean s) (stdDev s)) remaining;
            j = max_pos devs
        in if js_eq (stdDev s) (Finite 0) then []
           else if js_gt (devs ! j) (js_literal 2.5)
           then remaining ! j # esd_rounds k (take j remaining @ drop (Suc j) remaining)
           else [])"

text \<open>
  The critical value of Dixon's Q test in the words of the specification: the brackets
  3, 4, 5, 6, 7, 8, 9, 10, 15, 20, 30 with their values, and the value of the largest
  bracket that is at most \<open>n\<close>, of bracket 3 if there is none.
\<close>

definition dixon_brackets :: "(nat \<times> js_number) list" where
  "dixon_brackets =
     zip [3, 4, 5, 6, 7, 8, 9, 10, 15, 20, 30]
       (map js_literal
          [0.970, 0.829, 0.710, 0.625, 0.568, 0.526, 0.493, 0.466, 0.338, 0.298, 0.239])"

definition largest_bracket :: "nat \<Rightarrow> nat" where
  "largest_bracket n =
     (let candidates = filter (\<lambda>k. k \<le> n) (map fst dixon_brackets)
      in if candidates = [] then 3 else Max (set candidates))"

definition dixon_critical :: "nat \<Rightarrow> js_number" where
  "dixon_critical n =
     snd (hd (filter (\<lambda>b. fst b = largest_bracket n) dixon_brackets))"

text \<open>
  The invariant of a DataSet: one to three dimensions, one header for each, at least one
  point, every point with \<open>dimensions\<close> values, and no row number twice.
\<close>

definition well_formed :: "DataSet \<Rightarrow> bool" where
  "well_formed ds \<longleftrightarrow>
     1 \<le> dimensions ds \<and> dimensions ds \<le> 3 \<and> length (headers ds) = dimensions ds \<and>
     data ds \<noteq> [] \<and> list_all (\<lambda>dp. length (dp_values dp) = dimensions ds) (data ds) \<and>
     distinct (map dp_index (data ds))"

text \<open>
  The record of a point for a column, the composite key \<open>(index, columnIndex)\<close> of a
  record, and the text under which the orchestrator files that key.
\<close>

definition record_of :: "DataPoint \<Rightarrow> nat \<Rightarrow> OutlierRecord" where
  "record_of dp i =
     \<lparr>o_index = dp_index dp, o_value = dp_values dp ! i, o_point = dp_values dp,
      o_columnIndex = i\<rparr>"

definition composite_key :: "OutlierRecord \<Rightarrow> int \<times> nat" where
  "composite_key r = (o_index r, o_columnIndex r)"

definition key_string :: "int \<times> nat \<Rightarrow> string" where
  "key_string k = number_string (fst k) @ ''-'' @ number_string (int (snd k))"

text \<open>
  An entry of the \<^verbatim>\<open>Map\<close> is sound when it is filed under the text of its own composite
  key and its record is the record of the point that \<^verbatim>\<open>ds.data.find\<close> returns for the
  index.
\<close>

definition entry_ok :: "DataSet \<Rightarrow> string \<times> OutlierRecord \<Rightarrow> bool" where
  "entry_ok ds e \<longleftrightarrow>
     fst e = key_string (composite_key (snd e)) \<and>
     (case find (\<lambda>dp. dp_index dp = o_index (snd e)) (data ds) of
        None \<Rightarrow> False
      | Some dp \<Rightarrow> snd e = record_of dp (o_columnIndex (snd e)))"

subsection \<open>Example columns\<close>

text \<open>Nine zeros and a ten, in rows 0 to 9.\<close>

definition zeros_and_ten :: "Datum list" where
  "zeros_and_ten =
     [\<lparr>d_value = Finite 0, d_index = 0\<rparr>, \<lparr>d_value = Finite 0, d_index = 1\<rparr>,
      \<lparr>d_value = Finite 0, d_index = 2\<rparr>, \<lparr>d_value = Finite 0, d_index = 3\<rparr>,
      \<lparr>d_value = Finite 0, d_index = 4\<rparr>, \<lparr>d_value = Finite 0, d_index = 5\<rparr>,
      \<lparr>d_value = Finite 0, d_index = 6\<rparr>, \<lparr>d_value = Finite 0, d_index = 7\<rparr>,
      \<lparr>d_value = Finite 0, d_index = 8\<rparr>, \<lparr>d_value = Finite 10, d_index = 9\<rparr>]"

text \<open>
  Sixteen zeros and a seventeen, in rows 0 to 16: mean 1, standard deviation 4, the
  z-deviations are a quarter and 4, and every operation on the way is exact.
\<close>

definition zeros_and_seventeen :: "Datum list" where
  "zeros_and_seventeen =
     map (\<lambda>k. \<lparr>d_value = Finite 0, d_index = int k\<rparr>) [0..<16] @
     [\<lparr>d_value = Finite 17, d_index = 16\<rparr>]"

text \<open>The values 0 and 2: mean 1, standard deviation 1, median 2, mad 2.\<close>

definition zero_two :: "Datum list" where
  "zero_two = [\<lparr>d_value = Finite 0, d_index = 0\<rparr>, \<lparr>d_value = Finite 2, d_index = 1\<rparr>]"


text \<open>
  Six points in two dimensions. The IQR method flags row 5 in both columns and row 3 in
  the second column only.
\<close>

definition two_columns :: DataSet where
  "two_columns =
     \<lparr>data =
        [\<lparr>dp_index = 0, dp_values = [Finite 10, Finite 1]\<rparr>,
         \<lparr>dp_index = 1, dp_values = [Finite 12, Finite 2]\<rparr>,
         \<lparr>dp_index = 2, dp_values = [Finite 11, Finite 3]\<rparr>,
         \<lparr>dp_index = 3, dp_values = [Finite 13, Finite (- 50)]\<rparr>,
         \<lparr>dp_index = 4, dp_values = [Finite 12, Finite 2]\<rparr>,
         \<lparr>dp_index = 5, dp_values = [Finite 100, Finite 90]\<rparr>],
      headers = [''a'', ''b''], dimensions = 2\<rparr>"

text \<open>The number that the text \<^verbatim>\<open>0.1\<close> denotes, and a column that holds it three times.\<close>

definition tenth :: js_number where
  "tenth = js_literal (1 / 10)"

definition three_tenths :: "Datum list" where
  "three_tenths =
     [\<lparr>d_value = tenth, d_index = 0\<rparr>, \<lparr>d_value = tenth, d_index = 1\<rparr>,
      \<lparr>d_value = tenth, d_index = 2\<rparr>]"

text \<open>The column of the second end-to-end example of the specification.\<close>

definition five_fives :: "Datum list" where
  "five_fives =
     [\<lparr>d_value = Finite 5, d_index = 0\<rparr>, \<lparr>d_value = Finite 5, d_index = 1\<rparr>,
      \<lparr>d_value = Finite 5, d_index = 2\<rparr>, \<lparr>d_value = Finite 5, d_index = 3\<rparr>,
      \<lparr>d_value = Finite 5, d_index = 4\<rparr>]"

subsection \<open>Rounding to binary64\<close>

lemma rhe_floor: "\<lfloor>t\<rfloor> \<le> round_half_even t" "round_half_even t \<le> \<lfloor>t\<rfloor> + 1"
  unfolding round_half_even_def Let_def by auto

lemma rhe_le: 
  assumes "t \<le> of_int N"
  shows "round_half_even t \<le> N"
proof (cases "t = of_int N")
  case True
  then show ?thesis by (simp add: round_half_even_def)
next
  case False
  with assms have "t < of_int N" by simp
  then have "\<lfloor>t\<rfloor> < N" by (simp add: floor_less_iff)
  with rhe_floor(2)[of t] show ?thesis by linarith
qed

lemma rhe_ge:
  assumes "of_int N \<le> t"
  shows "N \<le> round_half_even t"
proof -
  have "N \<le> \<lfloor>t\<rfloor>" using assms by (simp add: le_floor_iff)
  with rhe_floor(1)[of t] show ?thesis by linarith
qed

lemma rhe_close:
  "t - 1 / 2 \<le> of_int (round_half_even t)" "of_int (round_half_even t) \<le> t + 1 / 2"
proof -
  have f: "of_int \<lfloor>t\<rfloor> \<le> t" "t < of_int \<lfloor>t\<rfloor> + 1" by linarith+
  show "t - 1 / 2 \<le> of_int (round_half_even t)"
    using f unfolding round_half_even_def Let_def by (simp split: if_splits) linarith?
  show "of_int (round_half_even t) \<le> t + 1 / 2"
    using f unfolding round_half_even_def Let_def by (simp split: if_splits) linarith?
qed

lemma rhe_of_int: "round_half_even (of_int N) = N"
  by (simp add: round_half_even_def)


lemma two_powr_int: "(2::real) powr (of_int (int n)) = 2 ^ n"
  by (simp add: powr_realpow)

lemma two_powr_int_diff:
  assumes "b \<le> a"
  shows "(2::real) powr (of_int a) = 2 powr (of_int b) * 2 ^ nat (a - b)"
proof -
  have "of_int a = of_int b + real (nat (a - b))" using assms by simp
  then have "(2::real) powr (of_int a) = 2 powr (of_int b) * 2 powr (real (nat (a - b)))"
    by (simp only: powr_add)
  then show ?thesis by (simp add: powr_realpow)
qed

lemma ulp_pos: "0 < ulp x"
  by (simp add: ulp_def)

lemma binade_ge: "- 1022 \<le> binade x"
  by (simp add: binade_def)

lemma ulp_grid: "ulp x = min_subnormal * 2 ^ nat (binade x + 1022)"
proof -
  have "of_int (binade x) - 52 = (of_int (binade x - 52) :: real)" by simp
  moreover have "(- 1074 :: real) = of_int (- 1074)" by simp
  moreover have "- 1074 \<le> binade x - 52" using binade_ge[of x] by simp
  ultimately show ?thesis
    unfolding ulp_def min_subnormal_def
    using two_powr_int_diff[of "- 1074" "binade x - 52"]
    by (simp add: algebra_simps)
qed

lemma floor_log_bounds:
  assumes "x \<noteq> 0"
  shows "2 powr (of_int \<lfloor>log 2 \<bar>x\<bar>\<rfloor>) \<le> \<bar>x\<bar>"
    and "\<bar>x\<bar> < 2 powr (of_int \<lfloor>log 2 \<bar>x\<bar>\<rfloor> + 1)"
proof -
  have pos: "0 < \<bar>x\<bar>" using assms by simp
  have "\<lfloor>log 2 \<bar>x\<bar>\<rfloor> = \<lfloor>log 2 \<bar>x\<bar>\<rfloor>" by simp
  then have "2 powr (of_int \<lfloor>log 2 \<bar>x\<bar>\<rfloor>) \<le> \<bar>x\<bar> \<and> \<bar>x\<bar> < 2 powr (of_int (\<lfloor>log 2 \<bar>x\<bar>\<rfloor> + 1))"
    by (subst (asm) floor_log_eq_powr_iff[OF pos]) simp_all
  then show "2 powr (of_int \<lfloor>log 2 \<bar>x\<bar>\<rfloor>) \<le> \<bar>x\<bar>"
    and "\<bar>x\<bar> < 2 powr (of_int \<lfloor>log 2 \<bar>x\<bar>\<rfloor> + 1)" by simp_all
qed

lemma floor_log_le:
  assumes "x \<noteq> 0" and "\<bar>x\<bar> < 2 powr (of_int c)"
  shows "\<lfloor>log 2 \<bar>x\<bar>\<rfloor> < c"
proof (rule ccontr)
  assume "\<not> \<lfloor>log 2 \<bar>x\<bar>\<rfloor> < c"
  then have "c \<le> \<lfloor>log 2 \<bar>x\<bar>\<rfloor>" by simp
  then have "(2::real) powr (of_int c) \<le> 2 powr (of_int \<lfloor>log 2 \<bar>x\<bar>\<rfloor>)"
    by (simp add: powr_mono)
  with floor_log_bounds(1)[OF assms(1)] assms(2) show False by linarith
qed

lemma floor_log_ge:
  assumes "2 powr (of_int c) \<le> \<bar>x\<bar>"
  shows "c \<le> \<lfloor>log 2 \<bar>x\<bar>\<rfloor>"
proof (rule ccontr)
  have "0 < (2::real) powr (of_int c)" by simp
  with assms have nz: "x \<noteq> 0" by auto
  assume "\<not> c \<le> \<lfloor>log 2 \<bar>x\<bar>\<rfloor>"
  then have "of_int \<lfloor>log 2 \<bar>x\<bar>\<rfloor> + 1 \<le> (of_int c :: real)" by linarith
  then have "(2::real) powr (of_int \<lfloor>log 2 \<bar>x\<bar>\<rfloor> + 1) \<le> 2 powr (of_int c)"
    by (rule powr_mono) simp
  with floor_log_bounds(2)[OF nz] assms show False by linarith
qed

lemma binade_normal:
  assumes "2 powr (- 1022) \<le> \<bar>x\<bar>"
  shows "binade x = \<lfloor>log 2 \<bar>x\<bar>\<rfloor>" and "2 powr (of_int (binade x)) \<le> \<bar>x\<bar>"
proof -
  have "0 < (2::real) powr (- 1022)" by simp
  with assms have nz: "x \<noteq> 0" by auto
  have "(2::real) powr (of_int (- 1022)) \<le> \<bar>x\<bar>" using assms by simp
  from floor_log_ge[OF this] show b: "binade x = \<lfloor>log 2 \<bar>x\<bar>\<rfloor>"
    by (simp add: binade_def)
  show "2 powr (of_int (binade x)) \<le> \<bar>x\<bar>"
    unfolding b by (rule floor_log_bounds(1)[OF nz])
qed

lemma binade_subnormal:
  assumes "x \<noteq> 0" and "\<bar>x\<bar> < 2 powr (- 1022)"
  shows "binade x = - 1022" and "ulp x = min_subnormal"
proof -
  have "\<bar>x\<bar> < 2 powr (of_int (- 1022))" using assms(2) by simp
  from floor_log_le[OF assms(1) this] show b: "binade x = - 1022"
    by (simp add: binade_def)
  show "ulp x = min_subnormal" by (simp add: ulp_def b min_subnormal_def)
qed

lemma ulp_normal:
  assumes "2 powr (- 1022) \<le> \<bar>x\<bar>"
  shows "ulp x \<le> \<bar>x\<bar> * 2 powr (- 52)"
proof -
  have "ulp x = 2 powr (of_int (binade x) + (- 52))"
    unfolding ulp_def by simp
  also have "\<dots> = 2 powr (of_int (binade x)) * 2 powr (- 52)"
    by (rule powr_add)
  also have "\<dots> \<le> \<bar>x\<bar> * 2 powr (- 52)"
    by (rule mult_right_mono[OF binade_normal(2)[OF assms]]) simp
  finally show ?thesis .
qed


lemma f64_round_0 [simp]: "f64_round 0 = 0"
  by (simp add: f64_round_def)

lemma f64_round_close:
  "x - ulp x / 2 \<le> f64_round x" "f64_round x \<le> x + ulp x / 2"
proof -
  have u: "0 < ulp x" by (rule ulp_pos)
  have a: "(x / ulp x - 1 / 2) * ulp x \<le> of_int (round_half_even (x / ulp x)) * ulp x"
    using rhe_close(1)[of "x / ulp x"] u by (intro mult_right_mono) simp_all
  have b: "of_int (round_half_even (x / ulp x)) * ulp x \<le> (x / ulp x + 1 / 2) * ulp x"
    using rhe_close(2)[of "x / ulp x"] u by (intro mult_right_mono) simp_all
  have c: "(x / ulp x - 1 / 2) * ulp x = x - ulp x / 2" "(x / ulp x + 1 / 2) * ulp x = x + ulp x / 2"
    using u by (simp_all add: field_simps)
  show "x - ulp x / 2 \<le> f64_round x"
    using a c u by (cases "x = 0") (simp_all add: f64_round_def)
  show "f64_round x \<le> x + ulp x / 2"
    using b c u by (cases "x = 0") (simp_all add: f64_round_def)
qed

lemma f64_round_le_grid:
  assumes "x \<le> of_int N * ulp x"
  shows "f64_round x \<le> of_int N * ulp x"
proof (cases "x = 0")
  case True
  with assms show ?thesis by simp
next
  case False
  have u: "0 < ulp x" by (rule ulp_pos)
  have "x / ulp x \<le> of_int N" using assms u by (simp add: field_simps)
  then have "round_half_even (x / ulp x) \<le> N" by (rule rhe_le)
  then have "of_int (round_half_even (x / ulp x)) * ulp x \<le> of_int N * ulp x"
    using u by (intro mult_right_mono) simp_all
  with False show ?thesis by (simp add: f64_round_def)
qed

lemma f64_round_ge_grid:
  assumes "of_int N * ulp x \<le> x"
  shows "of_int N * ulp x \<le> f64_round x"
proof (cases "x = 0")
  case True
  with assms show ?thesis by simp
next
  case False
  have u: "0 < ulp x" by (rule ulp_pos)
  have "of_int N \<le> x / ulp x" using assms u by (simp add: field_simps)
  then have "N \<le> round_half_even (x / ulp x)" by (rule rhe_ge)
  then have "of_int N * ulp x \<le> of_int (round_half_even (x / ulp x)) * ulp x"
    using u by (intro mult_right_mono) simp_all
  with False show ?thesis by (simp add: f64_round_def)
qed

lemma f64_round_grid_exact:
  assumes "x = of_int N * ulp x"
  shows "f64_round x = x"
  using f64_round_le_grid[of x N] f64_round_ge_grid[of N x] assms by simp

lemma f64_round_nonneg: "0 \<le> x \<Longrightarrow> 0 \<le> f64_round x"
  using f64_round_ge_grid[of 0 x] by simp

lemma f64_round_nonpos: "x \<le> 0 \<Longrightarrow> f64_round x \<le> 0"
  using f64_round_le_grid[of x 0] by simp

lemma f64_round_multiple: "\<exists>k::int. f64_round x = of_int k * min_subnormal"
proof (cases "x = 0")
  case True
  then show ?thesis by (intro exI[of _ 0]) simp
next
  case False
  let ?r = "round_half_even (x / ulp x)"
  have "f64_round x = of_int (?r * 2 ^ nat (binade x + 1022)) * min_subnormal"
    using False by (simp add: f64_round_def ulp_grid[of x])
  then show ?thesis by blast
qed

lemma f64_round_rel:
  assumes "2 powr (- 1022) \<le> x"
  shows "x * (1 - 2 powr (- 53)) \<le> f64_round x"
proof -
  have "0 < (2::real) powr (- 1022)" by simp
  with assms have x: "0 < x" by linarith
  have "ulp x \<le> \<bar>x\<bar> * 2 powr (- 52)" using assms x by (intro ulp_normal) simp
  then have "ulp x / 2 \<le> x * (2 powr (- 52) / 2)" using x by simp
  moreover have "(2::real) powr (- 52) / 2 = 2 powr (- 53)"
  proof -
    have "(2::real) powr (- 52) = 2 powr (- 53 + 1)" by simp
    also have "\<dots> = 2 powr (- 53) * 2 powr 1" by (rule powr_add)
    finally show ?thesis by simp
  qed
  ultimately have "ulp x / 2 \<le> x * 2 powr (- 53)" by simp
  with f64_round_close(1)[of x] show ?thesis by (simp add: algebra_simps)
qed

lemma f64_round_subnormal_exact:
  assumes "\<bar>x\<bar> < 2 powr (- 1022)" and "x = of_int k * min_subnormal"
  shows "f64_round x = x"
proof (cases "x = 0")
  case True
  then show ?thesis by simp
next
  case False
  from binade_subnormal(2)[OF False assms(1)] assms(2) have "x = of_int k * ulp x" by simp
  then show ?thesis by (rule f64_round_grid_exact)
qed

lemma f64_round_crude:
  assumes "0 < x" and "0 < f64_round x"
  shows "2 / 3 * x \<le> f64_round x"
proof (cases "2 powr (- 1022) \<le> x")
  case True
  have "(2::real) powr (- 53) \<le> 2 powr (- 2)" by (rule powr_mono) simp_all
  also have "\<dots> = 1 / 4" by (simp add: powr_minus)
  finally have "(2::real) powr (- 53) \<le> 1 / 4" .
  then have a: "x * 2 powr (- 53) \<le> x * (1 / 4)"
    using assms(1) by (intro mult_left_mono) simp_all
  have b: "x * (1 - 2 powr (- 53)) = x - x * 2 powr (- 53)" by (simp add: algebra_simps)
  from f64_round_rel[OF True] a assms(1) show ?thesis unfolding b by linarith
next
  case False
  then have sub: "\<bar>x\<bar> < 2 powr (- 1022)" using assms(1) by simp
  have nz: "x \<noteq> 0" using assms(1) by simp
  have u: "ulp x = min_subnormal" by (rule binade_subnormal(2)[OF nz sub])
  have g: "0 < min_subnormal" by (simp add: min_subnormal_def)
  let ?r = "round_half_even (x / min_subnormal)"
  have r: "f64_round x = of_int ?r * min_subnormal" using nz by (simp add: f64_round_def u)
  with assms(2) g have "0 < ?r" by (simp add: zero_less_mult_iff)
  then have r1: "(1::real) \<le> of_int ?r" by linarith
  have r2: "x / min_subnormal - 1 / 2 \<le> of_int ?r" by (rule rhe_close(1))
  have "2 / 3 * (x / min_subnormal) \<le> of_int ?r" using r1 r2 by linarith
  then have "2 / 3 * (x / min_subnormal) * min_subnormal \<le> of_int ?r * min_subnormal"
    using g by (intro mult_right_mono) simp_all
  then show ?thesis using g by (simp add: r)
qed


lemma binade_le:
  assumes "x \<noteq> 0" and "\<bar>x\<bar> < 2 powr (of_int c)"
  shows "binade x \<le> max (c - 1) (- 1022)"
  using floor_log_le[OF assms] by (simp add: binade_def)

lemma ulp_divides:
  assumes "binade x - 52 \<le> j"
  shows "2 powr (of_int j) = of_int (2 ^ nat (j - (binade x - 52))) * ulp x"
proof -
  have "ulp x = 2 powr (of_int (binade x - 52))" by (simp add: ulp_def)
  with two_powr_int_diff[OF assms] show ?thesis by (simp add: algebra_simps)
qed

lemma f64_round_representable:
  assumes "x = of_int m * 2 powr (of_int j)" and "\<bar>m\<bar> < 2 ^ 53" and "- 1074 \<le> j"
  shows "f64_round x = x"
proof (cases "x = 0")
  case True
  then show ?thesis by simp
next
  case False
  have "\<bar>x\<bar> = of_int \<bar>m\<bar> * 2 powr (of_int j)" by (simp add: assms(1) abs_mult)
  also have "\<dots> < 2 ^ 53 * 2 powr (of_int j)"
  proof -
    have "(of_int \<bar>m\<bar> :: real) < of_int (2 ^ 53)" using assms(2) by (simp only: of_int_less_iff)
    then show ?thesis by simp
  qed
  also have "\<dots> = 2 powr (of_int (j + 53))"
  proof -
    have "(2::real) powr (of_int (j + 53)) = 2 powr (of_int j) * 2 ^ nat (j + 53 - j)"
      by (rule two_powr_int_diff) simp
    then show ?thesis by simp
  qed
  finally have "\<bar>x\<bar> < 2 powr (of_int (j + 53))" .
  from binade_le[OF False this] assms(3) have "binade x - 52 \<le> j" by simp
  from ulp_divides[OF this] assms(1)
  have "x = of_int (m * 2 ^ nat (j - (binade x - 52))) * ulp x" by simp
  then show ?thesis by (rule f64_round_grid_exact)
qed

lemma f64_round_le_pow2:
  assumes "- 1074 \<le> k" and "\<bar>y\<bar> \<le> 2 powr (of_int k)"
  shows "\<bar>f64_round y\<bar> \<le> 2 powr (of_int k)"
proof (cases "y = 0")
  case True
  then show ?thesis by simp
next
  case False
  have "(2::real) powr (of_int k) < 2 powr (of_int (k + 1))" by (rule powr_less_mono) simp_all
  with assms(2) have "\<bar>y\<bar> < 2 powr (of_int (k + 1))" by linarith
  from binade_le[OF False this] assms(1) have "binade y - 52 \<le> k" by simp
  from ulp_divides[OF this] obtain N :: int where
    N: "2 powr (of_int k) = of_int N * ulp y" by blast
  have "y \<le> of_int N * ulp y" using assms(2) N by linarith
  then have a: "f64_round y \<le> of_int N * ulp y" by (rule f64_round_le_grid)
  have "of_int (- N) * ulp y \<le> y" using assms(2) N by simp
  then have b: "of_int (- N) * ulp y \<le> f64_round y" by (rule f64_round_ge_grid)
  from a b N show ?thesis by simp
qed

lemma f64_round_numeral_exact:
  assumes "\<bar>m\<bar> < 2 ^ 53"
  shows "f64_round (of_int m) = of_int m"
  by (rule f64_round_representable[of _ m 0]) (use assms in simp_all)

lemma f64_round_dyadic:
  assumes "\<bar>m\<bar> < 2 ^ 53" and "k \<le> 1074"
  shows "f64_round (of_int m / 2 ^ k) = of_int m / 2 ^ k"
proof (rule f64_round_representable[of _ m "- int k"])
  have "(2::real) powr (of_int (- int k)) = 1 / 2 ^ k"
    by (simp add: powr_minus powr_realpow divide_inverse)
  then show "(of_int m / 2 ^ k :: real) = of_int m * 2 powr (of_int (- int k))" by simp
qed (use assms in simp_all)

subsection \<open>Evaluating operations\<close>

lemma pow1024: "(2::real) ^ 53 \<le> overflow_threshold"
  unfolding overflow_threshold_def by (rule power_increasing) simp_all

lemma overflow_threshold_pos: "0 < overflow_threshold"
  by (simp add: overflow_threshold_def)

lemma f64_round_of_int_bound:
  assumes "\<bar>m\<bar> < 2 ^ 53"
  shows "\<bar>(of_int m :: real)\<bar> < overflow_threshold"
proof -
  have "(of_int \<bar>m\<bar> :: real) < of_int (2 ^ 53)" using assms by (simp only: of_int_less_iff)
  then have "\<bar>(of_int m :: real)\<bar> < 2 ^ 53" by simp
  with pow1024 show ?thesis by linarith
qed

lemma js_round_exact:
  assumes "f64_round x = x" and "\<bar>x\<bar> < overflow_threshold"
  shows "js_round x = Finite x"
  using assms unfolding js_round_def Let_def by (simp add: abs_less_iff not_le) linarith?

lemma js_round_of_int:
  assumes "\<bar>m\<bar> < 2 ^ 53"
  shows "js_round (of_int m) = Finite (of_int m)"
  by (rule js_round_exact[OF f64_round_numeral_exact[OF assms] f64_round_of_int_bound[OF assms]])

lemma js_round_0 [simp]: "js_round 0 = Finite 0"
  using js_round_of_int[of 0] by simp

lemma js_round_1 [simp]: "js_round 1 = Finite 1"
  using js_round_of_int[of 1] by simp

lemma js_round_minus_1 [simp]: "js_round (- 1) = Finite (- 1)"
  using js_round_of_int[of "- 1"] by simp

lemma js_round_numeral [simp]:
  "(numeral n :: int) < 2 ^ 53 \<Longrightarrow> js_round (numeral n) = Finite (numeral n)"
  using js_round_of_int[of "numeral n"] by simp

lemma js_round_neg_numeral [simp]:
  "(numeral n :: int) < 2 ^ 53 \<Longrightarrow> js_round (- numeral n) = Finite (- numeral n)"
  using js_round_of_int[of "- numeral n"] by simp

lemma js_round_dyadic:
  assumes "\<bar>m\<bar> < 2 ^ 53" and "k \<le> 1074"
  shows "js_round (of_int m / 2 ^ k) = Finite (of_int m / 2 ^ k)"
proof (rule js_round_exact[OF f64_round_dyadic[OF assms]])
  have "\<bar>(of_int m / 2 ^ k :: real)\<bar> = \<bar>of_int m\<bar> / 2 ^ k" by simp
  also have "\<dots> \<le> \<bar>of_int m\<bar>"
  proof -
    have "(1::real) \<le> 2 ^ k" by simp
    then have "\<bar>real_of_int m\<bar> * 1 \<le> \<bar>real_of_int m\<bar> * 2 ^ k"
      by (intro mult_left_mono) simp_all
    then show ?thesis by (simp add: field_simps)
  qed
  also have "\<dots> < overflow_threshold" by (rule f64_round_of_int_bound[OF assms(1)])
  finally show "\<bar>(of_int m / 2 ^ k :: real)\<bar> < overflow_threshold" .
qed

lemma js_round_half [simp]:
  "(numeral n :: int) < 2 ^ 53 \<Longrightarrow> js_round (numeral n / 2) = Finite (numeral n / 2)"
  using js_round_dyadic[of "numeral n" 1] by simp

lemma js_round_quarter [simp]:
  "(numeral n :: int) < 2 ^ 53 \<Longrightarrow> js_round (numeral n / 4) = Finite (numeral n / 4)"
  using js_round_dyadic[of "numeral n" 2] by simp

lemma js_round_one_half [simp]: "js_round (1 / 2) = Finite (1 / 2)"
  using js_round_dyadic[of 1 1] by simp

lemma js_round_one_quarter [simp]: "js_round (1 / 4) = Finite (1 / 4)"
  using js_round_dyadic[of 1 2] by simp

lemma js_sub_Finite [simp]: "js_sub (Finite x) (Finite y) = js_round (x - y)"
  by (simp add: js_sub_def)

lemma js_mul_Finite [simp]: "js_mul (Finite x) (Finite y) = js_round (x * y)"
  by (simp add: js_mul_def)

lemma js_pow2_Finite [simp]: "js_pow2 (Finite x) = js_round (x * x)"
  by (simp add: js_pow2_def)

lemma js_div_Finite [simp]: "y \<noteq> 0 \<Longrightarrow> js_div (Finite x) (Finite y) = js_round (x / y)"
  by (simp add: js_div_def)

lemma js_gt_Finite [simp]: "js_gt (Finite x) (Finite y) \<longleftrightarrow> y < x"
  by (simp add: js_gt_def js_lt_def)

lemma js_lt_Finite [simp]: "js_lt (Finite x) (Finite y) \<longleftrightarrow> x < y"
  by (simp add: js_lt_def)

lemma js_eq_Finite [simp]: "js_eq (Finite x) (Finite y) \<longleftrightarrow> x = y"
  by (simp add: js_eq_def)

lemma sqrt_squares: "sqrt 9 = 3" "sqrt 16 = 4"
  by (rule real_sqrt_unique, simp, simp)+

lemma floor_div_eq: "floor_div a b = a div b"
  unfolding floor_div_def by (simp add: floor_divide_of_nat_eq)

subsection \<open>Facts about the statistics calculator\<close>

lemma sort_ascending_props:
  "sorted_wrt (\<lambda>a b. \<not> js_gt a b) (sort_ascending xs)"
  "mset (sort_ascending xs) = mset xs"
  "length (sort_ascending xs) = length xs"
  "set (sort_ascending xs) = set xs"
proof -
  have "sorted (map js_key (sort_key js_key xs))" by (rule sorted_sort_key)
  then have "sorted_wrt (\<lambda>a b. js_key a \<le> js_key b) (sort_key js_key xs)"
    by (simp only: sorted_map)
  then show "sorted_wrt (\<lambda>a b. \<not> js_gt a b) (sort_ascending xs)"
    unfolding sort_ascending_def
    by (rule sorted_wrt_mono_rel[rotated]) (auto simp: js_gt_def js_lt_def)
qed (simp_all add: sort_ascending_def)

lemma getStats_nonempty:
  assumes "xs \<noteq> []"
  shows "getStats xs =
    (let n = length xs;
         sorted_xs = sort_ascending xs;
         m = js_div (reduce_add xs) (js_of_nat n)
     in \<lparr>q1 = sorted_xs ! (n div 4),
         q3 = sorted_xs ! (n * 3 div 4),
         iqr = js_sub (sorted_xs ! (n * 3 div 4)) (sorted_xs ! (n div 4)),
         mean = m,
         stdDev = js_sqrt (js_div (reduce_add (map (\<lambda>x. js_pow2 (js_sub x m)) xs)) (js_of_nat n)),
         median = sorted_xs ! (n div 2),
         mad = sort_ascending (map (\<lambda>x. js_abs (js_sub x (sorted_xs ! (n div 2)))) xs) ! (n div 2)\<rparr>)"
  using assms by (simp add: getStats_def Let_def floor_div_eq sort_ascending_props(3))

lemma getStats_fields:
  assumes "xs \<noteq> []"
  shows "q1 (getStats xs) = sort_ascending xs ! (length xs div 4)"
    and "q3 (getStats xs) = sort_ascending xs ! (length xs * 3 div 4)"
    and "median (getStats xs) = sort_ascending xs ! (length xs div 2)"
    and "iqr (getStats xs) = js_sub (q3 (getStats xs)) (q1 (getStats xs))"
    and "mean (getStats xs) = js_div (reduce_add xs) (js_of_nat (length xs))"
    and "stdDev (getStats xs) =
           js_sqrt (js_div (reduce_add (map (\<lambda>x. js_pow2 (js_sub x (mean (getStats xs)))) xs))
                      (js_of_nat (length xs)))"
    and "mad (getStats xs) =
           sort_ascending (map (\<lambda>x. js_abs (js_sub x (median (getStats xs)))) xs) !
             (length xs div 2)"
  by (simp_all add: getStats_nonempty[OF assms] Let_def)


lemma finite_double_simps [simp]:
  "finite_double (Finite 0)" "finite_double (Finite 1)"
  "(numeral n :: int) < 2 ^ 53 \<Longrightarrow> finite_double (Finite (numeral n))"
  "(numeral n :: int) < 2 ^ 53 \<Longrightarrow> finite_double (Finite (- numeral n))"
proof -
  have a: "finite_double (Finite (of_int m))" if "\<bar>m\<bar> < 2 ^ 53" for m
    using f64_round_numeral_exact[OF that] f64_round_of_int_bound[OF that]
    by (simp add: finite_double_def)
  show "finite_double (Finite 0)" using a[of 0] by simp
  show "finite_double (Finite 1)" using a[of 1] by simp
  show "(numeral n :: int) < 2 ^ 53 \<Longrightarrow> finite_double (Finite (numeral n))"
    using a[of "numeral n"] by simp
  show "(numeral n :: int) < 2 ^ 53 \<Longrightarrow> finite_double (Finite (- numeral n))"
    using a[of "- numeral n"] by simp
qed



subsection \<open>The first maximum of a list and the fold that finds it\<close>

lemma first_max_pos_props:
  fixes rs :: "('k :: linorder) list"
  assumes "rs \<noteq> []"
  shows "first_max_pos rs < length rs"
    and "rs ! first_max_pos rs = Max (set rs)"
    and "\<forall>k<first_max_pos rs. rs ! k < Max (set rs)"
proof -
  let ?P = "\<lambda>r. r < Max (set rs)"
  have "Max (set rs) \<in> set rs" using assms by (simp add: Max_in)
  then have ex: "\<exists>r\<in>set rs. \<not> ?P r" by auto
  then have lt: "length (takeWhile ?P rs) < length rs"
    by (metis length_takeWhile_le takeWhile_eq_all_conv le_neq_implies_less takeWhile_eq_take take_all_iff order_refl)
  then show "first_max_pos rs < length rs" by (simp add: first_max_pos_def)
  have "\<not> ?P (rs ! length (takeWhile ?P rs))"
    using lt nth_length_takeWhile by blast
  moreover have "rs ! length (takeWhile ?P rs) \<le> Max (set rs)"
    using lt by simp
  ultimately show "rs ! first_max_pos rs = Max (set rs)"
    by (simp add: first_max_pos_def)
  show "\<forall>k<first_max_pos rs. rs ! k < Max (set rs)"
    unfolding first_max_pos_def
    by (metis nth_mem takeWhile_nth set_takeWhileD)
qed

lemma first_max_pos_unique:
  fixes rs :: "('k :: linorder) list"
  assumes "j < length rs" and "rs ! j = Max (set rs)" and "\<forall>k<j. rs ! k < rs ! j"
  shows "first_max_pos rs = j"
proof -
  have ne: "rs \<noteq> []" using assms(1) by auto
  note p = first_max_pos_props[OF ne]
  show ?thesis
  proof (rule ccontr)
    assume "first_max_pos rs \<noteq> j"
    then consider "first_max_pos rs < j" | "j < first_max_pos rs" by linarith
    then show False
    proof cases
      case 1
      then show ?thesis using assms(2,3) p(2) by auto
    next
      case 2
      then show ?thesis using p(3) assms(2) by auto
    qed
  qed
qed

lemma first_max_pos_snoc_new:
  fixes rs :: "('k :: linorder) list"
  assumes "\<forall>r\<in>set rs. r < x"
  shows "first_max_pos (rs @ [x]) = length rs" and "Max (set (rs @ [x])) = x"
proof -
  show m: "Max (set (rs @ [x])) = x"
  proof (rule Max_eqI)
    show "finite (set (rs @ [x]))" by simp
    show "y \<le> x" if "y \<in> set (rs @ [x])" for y
      using that assms by (auto simp: less_imp_le)
    show "x \<in> set (rs @ [x])" by simp
  qed
  show "first_max_pos (rs @ [x]) = length rs"
    by (rule first_max_pos_unique) (use assms m in \<open>auto simp: nth_append\<close>)
qed

lemma first_max_pos_snoc_old:
  fixes rs :: "('k :: linorder) list"
  assumes "rs \<noteq> []" and "x \<le> Max (set rs)"
  shows "first_max_pos (rs @ [x]) = first_max_pos rs" and "Max (set (rs @ [x])) = Max (set rs)"
proof -
  note p = first_max_pos_props[OF assms(1)]
  show m: "Max (set (rs @ [x])) = Max (set rs)"
    using assms by (simp add: max_absorb2)
  show "first_max_pos (rs @ [x]) = first_max_pos rs"
    by (rule first_max_pos_unique) (use p m in \<open>auto simp: nth_append\<close>)
qed

lemma argmax_fold:
  fixes f :: "'b \<Rightarrow> 'k :: linorder"
  shows "foldl (\<lambda>acc x. if f x > fst acc then (f x, g x) else acc) (a, c) xs =
     (if \<exists>x\<in>set xs. f x > a
      then (Max (set (map f xs)), g (xs ! first_max_pos (map f xs)))
      else (a, c))"
proof (induction xs rule: rev_induct)
  case Nil
  then show ?case by simp
next
  case (snoc x xs)
  let ?step = "\<lambda>acc x. if f x > fst acc then (f x, g x) else acc"
  show ?case
  proof (cases "\<exists>y\<in>set xs. f y > a")
    case False
    then have acc: "foldl ?step (a, c) xs = (a, c)" using snoc by simp
    show ?thesis
    proof (cases "f x > a")
      case True
      have "\<forall>r\<in>set (map f xs). r < f x" using False True by fastforce
      from first_max_pos_snoc_new[OF this] True acc show ?thesis
        by (simp add: nth_append)
    next
      case nb: False
      with False acc show ?thesis by simp
    qed
  next
    case True
    then have ne: "map f xs \<noteq> []" by auto
    have acc: "foldl ?step (a, c) xs = (Max (set (map f xs)), g (xs ! first_max_pos (map f xs)))"
      using True snoc by simp
    obtain y where y: "y \<in> set xs" "f y > a" using True by auto
    have "f y \<le> Max (set (map f xs))" using y by simp
    then have big: "a < Max (set (map f xs))" using y by (meson less_le_trans)
    show ?thesis
    proof (cases "f x > Max (set (map f xs))")
      case gt: True
      have "\<forall>r\<in>set (map f xs). r < f x"
        using gt by (metis List.finite_set Max_ge le_less_trans)
      from first_max_pos_snoc_new[OF this] gt acc True show ?thesis
        by (simp add: nth_append)
    next
      case le: False
      then have "f x \<le> Max (set (map f xs))" by simp
      from first_max_pos_snoc_old[OF ne this] first_max_pos_props(1)[OF ne] le acc True
      show ?thesis
        by (simp add: nth_append)
    qed
  qed
qed

subsection \<open>The maximum of a list of numbers\<close>

lemma js_key_inj: "js_key a = js_key b \<Longrightarrow> a = b"
  by (cases a; cases b) simp_all

lemma js_key_NaN_less: "js_key NaN < js_key b \<longleftrightarrow> b \<noteq> NaN"
  by (cases b) simp_all

lemma js_gt_iff: "a \<noteq> NaN \<Longrightarrow> js_gt b a \<longleftrightarrow> js_key a < js_key b"
  by (cases a; cases b) (simp_all add: js_gt_def js_lt_def)

lemma js_gt_not_NaN: "js_gt b a \<Longrightarrow> a \<noteq> NaN \<and> b \<noteq> NaN"
  by (simp add: js_gt_def js_lt_def)

lemma js_gt_trans: "js_gt c b \<Longrightarrow> js_key a \<le> js_key b \<Longrightarrow> a \<noteq> NaN \<Longrightarrow> js_gt c a"
  using js_gt_iff[of a c] js_gt_iff[of b c] js_gt_not_NaN[of c b] by auto

text \<open>
  The fold of a \<^verbatim>\<open>forEach\<close> that keeps the greatest number seen so far and what belongs
  to it, as the pair of the key of the number and the rest.
\<close>

lemma js_fold_key:
  assumes "a \<noteq> NaN"
  shows "foldl (\<lambda>acc x. if js_gt (h x) (fst acc) then (h x, g x) else acc) (a, c) xs =
     (case foldl (\<lambda>acc x. if js_key (h x) > fst acc then (js_key (h x), (h x, g x)) else acc)
             (js_key a, (a, c)) xs of (k, r) \<Rightarrow> r) \<and>
     fst (foldl (\<lambda>acc x. if js_key (h x) > fst acc then (js_key (h x), (h x, g x)) else acc)
             (js_key a, (a, c)) xs) =
       js_key (fst (foldl (\<lambda>acc x. if js_gt (h x) (fst acc) then (h x, g x) else acc) (a, c) xs)) \<and>
     fst (foldl (\<lambda>acc x. if js_gt (h x) (fst acc) then (h x, g x) else acc) (a, c) xs) \<noteq> NaN"
proof (induction xs rule: rev_induct)
  case Nil
  show ?case using assms by simp
next
  case (snoc x xs)
  let ?J = "foldl (\<lambda>acc x. if js_gt (h x) (fst acc) then (h x, g x) else acc) (a, c) xs"
  let ?K = "foldl (\<lambda>acc x. if js_key (h x) > fst acc then (js_key (h x), (h x, g x)) else acc)
             (js_key a, (a, c)) xs"
  from snoc have "?J = snd ?K \<and> fst ?K = js_key (fst ?J) \<and> fst ?J \<noteq> NaN"
    unfolding case_prod_beta .
  then have ih: "?J = snd ?K" "fst ?K = js_key (fst ?J)" "fst ?J \<noteq> NaN"
    by blast+
  have g: "js_gt (h x) (fst ?J) \<longleftrightarrow> fst ?K < js_key (h x)"
    using js_gt_iff[OF ih(3), of "h x"] ih(2) by simp
  show ?case
  proof (cases "js_gt (h x) (fst ?J)")
    case True
    then have "h x \<noteq> NaN" using js_gt_not_NaN by blast
    with True g show ?thesis by (simp add: case_prod_beta)
  next
    case False
    with g ih show ?thesis by (simp add: case_prod_beta)
  qed
qed

lemma js_argmax_fold:
  assumes "a \<noteq> NaN"
  shows "foldl (\<lambda>acc x. if js_gt (h x) (fst acc) then (h x, g x) else acc) (a, c) xs =
     (if \<exists>x\<in>set xs. js_gt (h x) a
      then (h (xs ! max_pos (map h xs)), g (xs ! max_pos (map h xs)))
      else (a, c))"
proof -
  have ex: "(\<exists>x\<in>set xs. js_gt (h x) a) \<longleftrightarrow> (\<exists>x\<in>set xs. js_key a < js_key (h x))"
    using js_gt_iff[OF assms] by simp
  have m: "map (\<lambda>x. js_key (h x)) xs = map js_key (map h xs)" by simp
  show ?thesis
    unfolding js_fold_key[OF assms, THEN conjunct1] ex
      argmax_fold[of "\<lambda>x. js_key (h x)" "\<lambda>x. (h x, g x)" "js_key a" "(a, c)" xs]
    by (simp add: max_pos_def m del: map_map)
qed

lemma max_pos_props:
  assumes "devs \<noteq> []"
  shows "max_pos devs < length devs"
    and "js_key (devs ! max_pos devs) = Max (set (map js_key devs))"
    and "\<forall>k<max_pos devs. js_key (devs ! k) < js_key (devs ! max_pos devs)"
    and "\<forall>r\<in>set devs. \<not> js_gt r (devs ! max_pos devs)"
proof -
  have ne: "map js_key devs \<noteq> []" using assms by simp
  note p = first_max_pos_props[OF ne]
  show l: "max_pos devs < length devs" using p(1) by (simp add: max_pos_def)
  show m: "js_key (devs ! max_pos devs) = Max (set (map js_key devs))"
    using p(2) l by (simp add: max_pos_def)
  show "\<forall>k<max_pos devs. js_key (devs ! k) < js_key (devs ! max_pos devs)"
  proof (intro allI impI)
    fix k assume k: "k < max_pos devs"
    then have "map js_key devs ! k < Max (set (map js_key devs))"
      using p(3) by (simp add: max_pos_def)
    with k l m show "js_key (devs ! k) < js_key (devs ! max_pos devs)" by simp
  qed
  show "\<forall>r\<in>set devs. \<not> js_gt r (devs ! max_pos devs)"
  proof
    fix r assume "r \<in> set devs"
    then have "js_key r \<le> Max (set (map js_key devs))" by simp
    then have "\<not> js_key (devs ! max_pos devs) < js_key r" using m by simp
    then show "\<not> js_gt r (devs ! max_pos devs)"
      by (cases "devs ! max_pos devs = NaN") (simp_all add: js_gt_iff js_gt_def js_lt_def)
  qed
qed

text \<open>
  What the test after the loop sees: the greatest number exceeds a threshold that is not
  below the initial value exactly when the loop has found it, and then the loop holds what
  belongs to the first entry that attains it.
\<close>

lemma js_argmax_threshold:
  assumes "a \<noteq> NaN" and "js_key a \<le> js_key t" and "xs \<noteq> []"
  shows "js_gt (fst (foldl (\<lambda>acc x. if js_gt (h x) (fst acc) then (h x, g x) else acc) (a, c) xs)) t
           \<longleftrightarrow> js_gt (h (xs ! max_pos (map h xs))) t"
    and "js_gt (h (xs ! max_pos (map h xs))) t \<Longrightarrow>
         snd (foldl (\<lambda>acc x. if js_gt (h x) (fst acc) then (h x, g x) else acc) (a, c) xs) =
           g (xs ! max_pos (map h xs))"
proof -
  let ?j = "max_pos (map h xs)"
  have ne: "map h xs \<noteq> []" using assms(3) by simp
  have j: "?j < length xs" using max_pos_props(1)[OF ne] by simp
  have big: "\<exists>x\<in>set xs. js_gt (h x) a" if "js_gt (h (xs ! ?j)) t"
  proof -
    from that have "js_gt (h (xs ! ?j)) a" by (rule js_gt_trans[OF _ assms(2) assms(1)])
    moreover have "xs ! ?j \<in> set xs" using j by simp
    ultimately show ?thesis by blast
  qed
  have small: "\<not> js_gt a t" using assms(2) by (auto simp: js_gt_def js_lt_def)
  show "js_gt (fst (foldl (\<lambda>acc x. if js_gt (h x) (fst acc) then (h x, g x) else acc) (a, c) xs)) t
           \<longleftrightarrow> js_gt (h (xs ! ?j)) t"
    unfolding js_argmax_fold[OF assms(1)] using big small by auto
  show "js_gt (h (xs ! ?j)) t \<Longrightarrow>
         snd (foldl (\<lambda>acc x. if js_gt (h x) (fst acc) then (h x, g x) else acc) (a, c) xs) =
           g (xs ! ?j)"
    unfolding js_argmax_fold[OF assms(1)] using big by auto
qed

subsection \<open>Grubbs' test\<close>

lemma grubbs_step_argmax:
  "grubbs_step m sd = (\<lambda>acc d. if js_gt (zdev m sd d) (fst acc) then (zdev m sd d, d_index d) else acc)"
  by (intro ext) (simp add: grubbs_step_def zdev_def Let_def)

lemma js_key_0_2: "js_key (Finite 0) \<le> js_key (js_literal 2.0)"
  by (simp add: js_literal_def)

lemma findOutliersGrubbs_eq:
  assumes "3 \<le> length columnData"
    and "\<not> js_eq (stdDev (getStats (map d_value columnData))) (Finite 0)"
  shows "findOutliersGrubbs columnData =
    (let s = getStats (map d_value columnData);
         devs = map (zdev (mean s) (stdDev s)) columnData;
         j = max_pos devs
     in if js_gt (devs ! j) (js_literal 2.0) then [d_index (columnData ! j)] else [])"
proof -
  let ?s = "getStats (map d_value columnData)"
  let ?devs = "map (zdev (mean ?s) (stdDev ?s)) columnData"
  let ?j = "max_pos ?devs"
  have ne: "columnData \<noteq> []" using assms(1) by auto
  then have j: "?j < length columnData" using max_pos_props(1)[of ?devs] by simp
  have a: "Finite 0 \<noteq> NaN" by simp
  note t = js_argmax_threshold[OF a js_key_0_2 ne, of "zdev (mean ?s) (stdDev ?s)" d_index "- 1"]
  have n: "\<not> length (map d_value columnData) < 3" using assms(1) by simp
  show ?thesis
  proof (cases "js_gt (?devs ! ?j) (js_literal 2.0)")
    case True
    then have g: "js_gt (zdev (mean ?s) (stdDev ?s) (columnData ! ?j)) (js_literal 2.0)"
      using j by simp
    from t(1) t(2)[OF g] g True show ?thesis
      unfolding findOutliersGrubbs_def Let_def if_not_P[OF n] if_not_P[OF assms(2)]
        grubbs_step_argmax case_prod_beta
      by simp
  next
    case False
    then have g: "\<not> js_gt (zdev (mean ?s) (stdDev ?s) (columnData ! ?j)) (js_literal 2.0)"
      using j by simp
    from t(1) g False show ?thesis
      unfolding findOutliersGrubbs_def Let_def if_not_P[OF n] if_not_P[OF assms(2)]
        grubbs_step_argmax case_prod_beta
      by simp
  qed
qed

text \<open>
  Claim C4. On a column of fewer than 3 entries, or whose standard deviation is 0, Grubbs'
  test returns the empty list. On a column of at least 3 entries with a non-zero standard
  deviation it returns at most one index: with \<open>devs\<close> the z-deviations
  \<open>|value - mean| / stdDev\<close> of the entries and \<open>j\<close> the position of the first entry
  that attains their maximum (no deviation is greater than the one at \<open>j\<close>, and the
  deviations before \<open>j\<close> are below it), it returns the index of the entry at \<open>j\<close> if its
  deviation exceeds 2.0, and the empty list otherwise.
\<close>

theorem findOutliersGrubbs_spec:
  "(let s = getStats (map d_value columnData);
        devs = map (zdev (mean s) (stdDev s)) columnData;
        j = max_pos devs
    in (length columnData < 3 \<or> js_eq (stdDev s) (Finite 0) \<longrightarrow>
          findOutliersGrubbs columnData = []) \<and>
       (3 \<le> length columnData \<and> \<not> js_eq (stdDev s) (Finite 0) \<longrightarrow>
          length (findOutliersGrubbs columnData) \<le> 1 \<and>
          j < length columnData \<and>
          js_key (devs ! j) = Max (set (map js_key devs)) \<and>
          (\<forall>d\<in>set columnData. \<not> js_gt (zdev (mean s) (stdDev s) d) (devs ! j)) \<and>
          (\<forall>k<j. js_key (devs ! k) < js_key (devs ! j)) \<and>
          findOutliersGrubbs columnData =
            (if js_gt (devs ! j) (js_literal 2.0) then [d_index (columnData ! j)] else [])))"
proof -
  let ?s = "getStats (map d_value columnData)"
  let ?devs = "map (zdev (mean ?s) (stdDev ?s)) columnData"
  let ?j = "max_pos ?devs"
  have a: "findOutliersGrubbs columnData = []"
    if "length columnData < 3 \<or> js_eq (stdDev ?s) (Finite 0)"
    using that by (auto simp add: findOutliersGrubbs_def Let_def)
  have b: "length (findOutliersGrubbs columnData) \<le> 1 \<and>
          ?j < length columnData \<and>
          js_key (?devs ! ?j) = Max (set (map js_key ?devs)) \<and>
          (\<forall>d\<in>set columnData. \<not> js_gt (zdev (mean ?s) (stdDev ?s) d) (?devs ! ?j)) \<and>
          (\<forall>k<?j. js_key (?devs ! k) < js_key (?devs ! ?j)) \<and>
          findOutliersGrubbs columnData =
            (if js_gt (?devs ! ?j) (js_literal 2.0) then [d_index (columnData ! ?j)] else [])"
    if h: "3 \<le> length columnData \<and> \<not> js_eq (stdDev ?s) (Finite 0)"
  proof -
    have ne: "?devs \<noteq> []" using h by auto
    note p = max_pos_props[OF ne]
    have e: "findOutliersGrubbs columnData =
            (if js_gt (?devs ! ?j) (js_literal 2.0) then [d_index (columnData ! ?j)] else [])"
      using findOutliersGrubbs_eq[of columnData] h by (simp add: Let_def)
    have l: "length (findOutliersGrubbs columnData) \<le> 1" unfolding e by simp
    have m: "\<forall>d\<in>set columnData. \<not> js_gt (zdev (mean ?s) (stdDev ?s) d) (?devs ! ?j)"
      using p(4) by simp
    from l p(1) p(2) m p(3) e show ?thesis by simp
  qed
  from a b show ?thesis unfolding Let_def by blast
qed

lemma zeros_and_seventeen_values:
  "map d_value zeros_and_seventeen =
     [Finite 0, Finite 0, Finite 0, Finite 0, Finite 0, Finite 0, Finite 0, Finite 0,
      Finite 0, Finite 0, Finite 0, Finite 0, Finite 0, Finite 0, Finite 0, Finite 0, Finite 17]"
  by (simp add: zeros_and_seventeen_def upt_rec[of _ "numeral n" for n])

lemma zeros_and_seventeen_stats:
  "getStats (map d_value zeros_and_seventeen) =
     \<lparr>q1 = Finite 0, q3 = Finite 0, iqr = Finite 0, mean = Finite 1, stdDev = Finite 4,
      median = Finite 0, mad = Finite 0\<rparr>"
  unfolding zeros_and_seventeen_values
  by (simp add: getStats_def Let_def sort_ascending_def floor_div_eq reduce_add_def
      js_of_nat_def sqrt_squares)

lemma zeros_and_seventeen_devs:
  "map (zdev (Finite 1) (Finite 4)) zeros_and_seventeen =
     [Finite (1 / 4), Finite (1 / 4), Finite (1 / 4), Finite (1 / 4), Finite (1 / 4),
      Finite (1 / 4), Finite (1 / 4), Finite (1 / 4), Finite (1 / 4), Finite (1 / 4),
      Finite (1 / 4), Finite (1 / 4), Finite (1 / 4), Finite (1 / 4), Finite (1 / 4),
      Finite (1 / 4), Finite 4]"
  by (simp add: zeros_and_seventeen_def upt_rec[of _ "numeral n" for n] zdev_def)

lemma zeros_and_seventeen_max_pos:
  "max_pos
     [Finite (1 / 4), Finite (1 / 4), Finite (1 / 4), Finite (1 / 4), Finite (1 / 4),
      Finite (1 / 4), Finite (1 / 4), Finite (1 / 4), Finite (1 / 4), Finite (1 / 4),
      Finite (1 / 4), Finite (1 / 4), Finite (1 / 4), Finite (1 / 4), Finite (1 / 4),
      Finite (1 / 4), Finite 4] = 16"
  by (simp add: max_pos_def first_max_pos_def)

lemma zeros_and_seventeen_nth:
  "zeros_and_seventeen ! 16 = \<lparr>d_value = Finite 17, d_index = 16\<rparr>"
  "length zeros_and_seventeen = 17"
  by (simp_all add: zeros_and_seventeen_def nth_append)

theorem findOutliersGrubbs_spec_witness:
  "3 \<le> length zeros_and_seventeen \<and>
   \<not> js_eq (stdDev (getStats (map d_value zeros_and_seventeen))) (Finite 0) \<and>
   findOutliersGrubbs zeros_and_seventeen = [16]"
  using findOutliersGrubbs_spec [of zeros_and_seventeen]
  unfolding Let_def zeros_and_seventeen_stats
  by (simp add: zeros_and_seventeen_max_pos zeros_and_seventeen_nth zeros_and_seventeen_devs
      js_literal_def)

subsection \<open>Z-score, modified Z-score and Peirce's criterion\<close>

lemma two_powr_nat: "(2::real) powr (of_int (int k)) = 2 ^ k"
  by (simp add: powr_realpow)

lemma js_round_bounded:
  assumes "\<bar>x\<bar> \<le> 2 ^ k" and "k \<le> 1023"
  shows "js_round x = Finite (f64_round x)" and "\<bar>f64_round x\<bar> \<le> 2 ^ k"
proof -
  have "\<bar>x\<bar> \<le> 2 powr (of_int (int k))" using assms(1) by (simp only: two_powr_nat)
  then have "\<bar>f64_round x\<bar> \<le> 2 powr (of_int (int k))"
    by (intro f64_round_le_pow2) simp_all
  then show b: "\<bar>f64_round x\<bar> \<le> 2 ^ k" by (simp only: two_powr_nat)
  have "(2::real) ^ k < 2 ^ 1024" using assms(2) by (intro power_strict_increasing) simp_all
  with b have "\<bar>f64_round x\<bar> < overflow_threshold" by (simp add: overflow_threshold_def)
  then show "js_round x = Finite (f64_round x)"
    unfolding js_round_def Let_def by (simp add: abs_less_iff not_le) linarith?
qed

lemma js_round_bounded_ex:
  assumes "\<bar>x\<bar> \<le> 2 ^ k" and "k \<le> 1023"
  shows "\<exists>r. js_round x = Finite r \<and> \<bar>r\<bar> \<le> 2 ^ k"
  using js_round_bounded[OF assms] by blast

lemma zero_two_stats:
  "getStats (map d_value zero_two) =
     \<lparr>q1 = Finite 0, q3 = Finite 2, iqr = Finite 2, mean = Finite 1, stdDev = Finite 1,
      median = Finite 2, mad = Finite 2\<rparr>"
  by (simp add: zero_two_def getStats_def Let_def sort_ascending_def floor_div_eq
      reduce_add_def js_of_nat_def)

lemma modz_score_small:
  assumes "\<bar>c\<bar> \<le> 1" and "\<bar>v\<bar> \<le> 2"
  shows "\<exists>q. js_abs (js_div (js_mul (js_literal c) (Finite v)) (Finite 2)) = Finite q \<and> q \<le> 1"
proof -
  have "\<bar>c\<bar> \<le> 2 ^ 0" using assms(1) by simp
  from js_round_bounded_ex[OF this] obtain c' where
    c: "js_literal c = Finite c'" "\<bar>c'\<bar> \<le> 1" by (auto simp: js_literal_def)
  have "\<bar>c' * v\<bar> \<le> 1 * 2" unfolding abs_mult
    by (rule mult_mono[OF c(2) assms(2)]) simp_all
  then have "\<bar>c' * v\<bar> \<le> 2 ^ 1" by simp
  from js_round_bounded_ex[OF this] obtain p where
    p: "js_round (c' * v) = Finite p" "\<bar>p\<bar> \<le> 2" by auto
  have "\<bar>p / 2\<bar> \<le> 2 ^ 0" using p(2) by simp
  from js_round_bounded_ex[OF this] obtain q where
    q: "js_round (p / 2) = Finite q" "\<bar>q\<bar> \<le> 1" by auto
  show ?thesis
    unfolding c(1) by (simp add: p(1) q(1) q(2))
qed

lemma zero_two_results:
  "findOutliersZScore zero_two None = []" "findOutliersModifiedZScore zero_two None = []"
proof -
  show "findOutliersZScore zero_two None = []"
    unfolding findOutliersZScore_def Let_def zero_two_stats
    by (simp add: zero_two_def js_literal_def)
  have "\<exists>q. js_abs (js_div (js_mul (js_literal 0.6745) (Finite (- 2))) (Finite 2)) = Finite q \<and>
          q \<le> 1"
    by (rule modz_score_small) simp_all
  moreover have
    "\<exists>q. js_abs (js_div (js_mul (js_literal 0.6745) (Finite 0)) (Finite 2)) = Finite q \<and> q \<le> 1"
    by (rule modz_score_small) simp_all
  ultimately show "findOutliersModifiedZScore zero_two None = []"
    unfolding findOutliersModifiedZScore_def Let_def zero_two_stats
    by (auto simp add: zero_two_def js_literal_def)
qed

text \<open>
  Claim C3, as stated: the Z-score method returns the empty list exactly when the standard
  deviation is 0, and the modified Z-score method exactly when the mad is 0. Both
  equivalences fail on the column of the values 0 and 2: both methods return the empty
  list, the standard deviation is 1 and the mad is 2.
\<close>

theorem zscore_empty_iff_counterexample:
  "\<not> (findOutliersZScore zero_two None = [] \<longleftrightarrow>
        js_eq (stdDev (getStats (map d_value zero_two))) (Finite 0)) \<and>
   \<not> (findOutliersModifiedZScore zero_two None = [] \<longleftrightarrow>
        js_eq (mad (getStats (map d_value zero_two))) (Finite 0))"
  by (simp add: zero_two_results zero_two_stats)

text \<open>
  Claim C3, amended. The Z-score method returns the empty list whenever the standard
  deviation is 0, and otherwise exactly when no entry has \<open>|(value - mean) / stdDev|\<close>
  above the threshold; the modified Z-score method returns the empty list whenever the mad
  is 0, and otherwise exactly when no entry has \<open>|0.6745 * (value - median) / mad|\<close> above
  the threshold. The scores are those of the engine, every operation rounded.
\<close>

theorem zscore_empty_iff:
  "(let s = getStats (map d_value columnData);
        threshold = (case threshold_arg of None \<Rightarrow> js_literal 3.0 | Some t \<Rightarrow> t)
    in findOutliersZScore columnData threshold_arg = [] \<longleftrightarrow>
         js_eq (stdDev s) (Finite 0) \<or>
         (\<forall>d\<in>set columnData.
            \<not> js_gt (js_abs (js_div (js_sub (d_value d) (mean s)) (stdDev s))) threshold)) \<and>
   (let s = getStats (map d_value columnData);
        threshold = (case threshold_arg of None \<Rightarrow> js_literal 3.5 | Some t \<Rightarrow> t)
    in findOutliersModifiedZScore columnData threshold_arg = [] \<longleftrightarrow>
         js_eq (mad s) (Finite 0) \<or>
         (\<forall>d\<in>set columnData.
            \<not> js_gt (js_abs (js_div (js_mul (js_literal 0.6745)
                                         (js_sub (d_value d) (median s)))
                                 (mad s)))
                 threshold))"
  by (auto simp add: findOutliersZScore_def findOutliersModifiedZScore_def Let_def
      filter_empty_conv)

theorem zscore_empty_iff_witness:
  "\<not> js_eq (stdDev (getStats (map d_value zero_two))) (Finite 0) \<and>
   \<not> js_eq (mad (getStats (map d_value zero_two))) (Finite 0) \<and>
   findOutliersZScore zero_two None = [] \<and>
   findOutliersModifiedZScore zero_two None = []"
  using zscore_empty_iff [of zero_two None]
  by (simp add: zero_two_results zero_two_stats)

text \<open>
  Claim C9. Peirce's criterion is the modified Z-score method called with the threshold
  4.0: the two return the same list of indices on every column, namely the indices of the
  entries with \<open>|0.6745 * (value - median) / mad| > 4.0\<close>, and nothing when the mad is 0.
\<close>

theorem findOutliersPeirce_eq:
  "findOutliersPeirce columnData =
     findOutliersModifiedZScore columnData (Some (js_literal 4.0)) \<and>
   set (findOutliersPeirce columnData) =
     (let s = getStats (map d_value columnData)
      in if js_eq (mad s) (Finite 0) then {}
         else {d_index d | d. d \<in> set columnData \<and>
                 js_gt (js_abs (js_div (js_mul (js_literal 0.6745)
                                           (js_sub (d_value d) (median s)))
                                   (mad s)))
                   (js_literal 4.0)})"
  by (auto simp add: findOutliersPeirce_def findOutliersModifiedZScore_def Let_def)

subsection \<open>Generalized ESD\<close>

lemma floor_tenth: "nat \<lfloor>real n * 0.1\<rfloor> = n div 10"
proof -
  have "real n * 0.1 = real n / real 10" by simp
  then show ?thesis by (simp only: floor_divide_of_nat_eq nat_int)
qed

text \<open>
  Claim C10. On a column of 5 to 9 entries the Generalized ESD method, called without its
  second argument, returns the empty list whatever the values are: \<open>maxOutliers\<close> is
  \<open>\<lfloor>n * 0.1\<rfloor> = 0\<close> and the loop body never runs.
\<close>

theorem findOutliersESD_small:
  "5 \<le> length columnData \<Longrightarrow> length columnData \<le> 9 \<Longrightarrow>
   findOutliersESD columnData None = []"
  by (simp add: findOutliersESD_def floor_tenth del: of_nat_mult)

theorem findOutliersESD_small_witness:
  "5 \<le> length (take 9 zeros_and_ten) \<and> length (take 9 zeros_and_ten) \<le> 9 \<and>
   findOutliersESD (take 9 zeros_and_ten) None = []"
  using findOutliersESD_small [of "take 9 zeros_and_ten"]
  by (simp add: zeros_and_ten_def)

lemma esd_step_argmax:
  "esd_step m sd =
     (\<lambda>acc p. if js_gt (zdev m sd (snd p)) (fst acc)
              then (zdev m sd (snd p), (d_index (snd p), int (fst p))) else acc)"
  by (intro ext) (simp add: esd_step_def zdev_def Let_def)

lemma js_key_m1: "js_key (Finite (- 1)) \<le> js_key (js_literal 2.5)"
  by (simp add: js_literal_def)

lemma esd_loop_Suc:
  "esd_loop (Suc k) currentData recorded =
     (let s = getStats (map d_value currentData);
          devs = map (zdev (mean s) (stdDev s)) currentData;
          j = max_pos devs
      in if length currentData < 3 \<or> js_eq (stdDev s) (Finite 0) \<or>
            \<not> js_gt (devs ! j) (js_literal 2.5) then recorded
         else esd_loop k (splice1 currentData j) (recorded @ [currentData ! j]))"
proof (cases "length currentData < 3 \<or>
    js_eq (stdDev (getStats (map d_value currentData))) (Finite 0)")
  case True
  then show ?thesis by (auto simp add: Let_def)
next
  case False
  let ?s = "getStats (map d_value currentData)"
  let ?h = "\<lambda>p :: nat \<times> Datum. zdev (mean ?s) (stdDev ?s) (snd p)"
  let ?g = "\<lambda>p :: nat \<times> Datum. (d_index (snd p), int (fst p))"
  let ?devs = "map (zdev (mean ?s) (stdDev ?s)) currentData"
  let ?j = "max_pos ?devs"
  let ?F = "foldl (\<lambda>acc p. if js_gt (?h p) (fst acc) then (?h p, ?g p) else acc)
              (Finite (- 1), - 1, - 1) (enumerate 0 currentData)"
  from False have ne: "currentData \<noteq> []" by auto
  then have ne': "enumerate 0 currentData \<noteq> []" by (cases currentData) simp_all
  have j: "?j < length currentData" using max_pos_props(1)[of ?devs] ne by simp
  have devs: "map ?h (enumerate 0 currentData) = ?devs"
    by (simp add: enumerate_eq_zip map_snd_zip
        flip: map_map[of "zdev (mean ?s) (stdDev ?s)" snd, unfolded comp_def])
  have nth: "enumerate 0 currentData ! ?j = (?j, currentData ! ?j)"
    using j by (simp add: nth_enumerate_eq)
  have a: "Finite (- 1) \<noteq> NaN" by simp
  note t = js_argmax_threshold[OF a js_key_m1 ne', of ?h ?g "(- 1, - 1)", unfolded devs nth]
  have dj: "?devs ! ?j = zdev (mean ?s) (stdDev ?s) (currentData ! ?j)" using j by simp
  have n3: "\<not> length currentData < 3" and sd: "\<not> js_eq (stdDev ?s) (Finite 0)"
    using False by simp_all
  have lhs: "esd_loop (Suc k) currentData recorded =
      (if js_gt (fst ?F) (js_literal 2.5) \<and> snd (snd ?F) \<noteq> - 1
       then esd_loop k (splice1 currentData (nat (snd (snd ?F))))
              (recorded @ [currentData ! nat (snd (snd ?F))])
       else recorded)"
    unfolding esd_loop.simps Let_def if_not_P[OF n3] if_not_P[OF sd] esd_step_argmax
      case_prod_beta
    by (rule refl)
  show ?thesis
  proof (cases "js_gt (?devs ! ?j) (js_literal 2.5)")
    case True
    then have g: "js_gt (zdev (mean ?s) (stdDev ?s) (snd (?j, currentData ! ?j))) (js_literal 2.5)"
      using dj by simp
    from t(2)[OF g] have s: "snd ?F = (d_index (currentData ! ?j), int ?j)" by simp
    from t(1) g have f: "js_gt (fst ?F) (js_literal 2.5)" by simp
    show ?thesis
      unfolding lhs Let_def using True False f by (simp add: s)
  next
    case nb: False
    then have g: "\<not> js_gt (zdev (mean ?s) (stdDev ?s) (snd (?j, currentData ! ?j))) (js_literal 2.5)"
      using dj by simp
    from t(1) g have f: "\<not> js_gt (fst ?F) (js_literal 2.5)" by simp
    show ?thesis
      unfolding lhs Let_def using nb False f by simp
  qed
qed

lemma esd_loop_rounds: "esd_loop k currentData recorded = recorded @ esd_rounds k currentData"
proof (induction k arbitrary: currentData recorded)
  case 0
  then show ?case by simp
next
  case (Suc k)
  show ?case
    unfolding esd_loop_Suc
    by (simp add: Let_def Suc.IH splice1_def del: esd_loop.simps)
qed

lemma length_esd_rounds: "length (esd_rounds k remaining) \<le> k"
  by (induction k arbitrary: remaining) (simp_all add: Let_def)

text \<open>
  Claim C5. On a column of fewer than 5 entries the Generalized ESD method, called without
  its second argument, returns the empty list. It never returns more than \<open>\<lfloor>n * 0.1\<rfloor>\<close>
  indices, and on a column of at least 5 entries they are the indices of the entries that
  the iteration of the specification records: at most \<open>\<lfloor>n * 0.1\<rfloor>\<close> rounds, each on the
  entries that remain, each stopping when fewer than 3 remain, when their standard deviation
  is 0 or when their maximal z-deviation does not exceed 2.5, and otherwise recording and
  removing the entry of maximal z-deviation.
\<close>

theorem findOutliersESD_spec:
  "(length columnData < 5 \<longrightarrow> findOutliersESD columnData None = []) \<and>
   length (findOutliersESD columnData None) \<le> nat \<lfloor>real (length columnData) * 0.1\<rfloor> \<and>
   (5 \<le> length columnData \<longrightarrow>
      findOutliersESD columnData None =
        map d_index (esd_rounds (nat \<lfloor>real (length columnData) * 0.1\<rfloor>) columnData))"
  by (simp add: findOutliersESD_def esd_loop_rounds length_esd_rounds del: of_nat_mult)

theorem findOutliersESD_spec_witness:
  "5 \<le> length zeros_and_seventeen \<and>
   nat \<lfloor>real (length zeros_and_seventeen) * 0.1\<rfloor> = 1 \<and>
   findOutliersESD zeros_and_seventeen None = [16]"
  using findOutliersESD_spec [of zeros_and_seventeen]
  by (simp add: zeros_and_seventeen_nth Let_def zeros_and_seventeen_stats
      zeros_and_seventeen_devs zeros_and_seventeen_max_pos js_literal_def)

subsection \<open>Dixon's Q test\<close>

lemma bracket_ranges:
  fixes n :: nat
  obtains "n < 4" | "n = 4" | "n = 5" | "n = 6" | "n = 7" | "n = 8" | "n = 9"
    | "10 \<le> n" "n < 15" | "15 \<le> n" "n < 20" | "20 \<le> n" "n < 30" | "30 \<le> n"
  by linarith

lemma dixon_key_cases:
  "dixon_key n =
     (if n < 4 then 3 else if n < 5 then 4 else if n < 6 then 5 else if n < 7 then 6
      else if n < 8 then 7 else if n < 9 then 8 else if n < 10 then 9
      else if n < 15 then 10 else if n < 20 then 15 else if n < 30 then 20 else 30)"
  by (cases n rule: bracket_ranges) (simp_all add: dixon_key_def Q_TABLE_def)

lemma largest_bracket_cases:
  "largest_bracket n =
     (if n < 4 then 3 else if n < 5 then 4 else if n < 6 then 5 else if n < 7 then 6
      else if n < 8 then 7 else if n < 9 then 8 else if n < 10 then 9
      else if n < 15 then 10 else if n < 20 then 15 else if n < 30 then 20 else 30)"
  by (cases n rule: bracket_ranges) (simp_all add: largest_bracket_def dixon_brackets_def Let_def)

lemma dixon_qCrit: "map_of Q_TABLE (dixon_key n) = Some (dixon_critical n)"
  by (cases n rule: bracket_ranges)
    (simp_all add: dixon_key_cases largest_bracket_cases dixon_critical_def Q_TABLE_def
      dixon_brackets_def)


lemma sort_by_value_props:
  "sorted_wrt (\<lambda>a b. \<not> js_gt (d_value a) (d_value b)) (sort_by_value columnData)"
  "mset (sort_by_value columnData) = mset columnData"
  "length (sort_by_value columnData) = length columnData"
  "set (sort_by_value columnData) = set columnData"
proof -
  have "sorted (map (\<lambda>d. js_key (d_value d)) (sort_key (\<lambda>d. js_key (d_value d)) columnData))"
    by (rule sorted_sort_key)
  then have "sorted_wrt (\<lambda>a b. js_key (d_value a) \<le> js_key (d_value b))
      (sort_key (\<lambda>d. js_key (d_value d)) columnData)"
    by (simp only: sorted_map)
  then show "sorted_wrt (\<lambda>a b. \<not> js_gt (d_value a) (d_value b)) (sort_by_value columnData)"
    unfolding sort_by_value_def
    by (rule sorted_wrt_mono_rel[rotated]) (auto simp: js_gt_def js_lt_def)
qed (simp_all add: sort_by_value_def)



lemma findOutliersDixonQ_eq:
  assumes "3 \<le> length columnData" and "length columnData \<le> 30"
  shows "findOutliersDixonQ columnData =
    (let n = length columnData;
         sortedData = sort_by_value columnData;
         range = js_sub (d_value (sortedData ! (n - 1))) (d_value (sortedData ! 0));
         qLow = js_div (js_sub (d_value (sortedData ! 1)) (d_value (sortedData ! 0))) range;
         qHigh = js_div (js_sub (d_value (sortedData ! (n - 1))) (d_value (sortedData ! (n - 2))))
                   range;
         qCrit = dixon_critical n
     in if js_eq range (Finite 0) then []
        else (if js_gt qLow qCrit then [d_index (sortedData ! 0)] else []) @
             (if js_gt qHigh qCrit then [d_index (sortedData ! (n - 1))] else []))"
proof -
  have g: "\<not> (length columnData < 3 \<or> length columnData > 30)" using assms by simp
  show ?thesis
    unfolding findOutliersDixonQ_def Let_def dixon_qCrit if_not_P[OF g] option.case
    by (rule refl)
qed

lemma findOutliersDixonQ_outside:
  "length columnData < 3 \<or> length columnData > 30 \<Longrightarrow> findOutliersDixonQ columnData = []"
  by (simp add: findOutliersDixonQ_def Let_def)







subsection \<open>Catalog and orchestrator\<close>

text \<open>
  Claim C8. The report has exactly 7 entries, in the order of the catalog: IQR, Z-Score,
  Modified Z-Score, Grubbs, ESD, Dixon's Q, Peirce. The entry at each position carries the
  name and the description of the catalog entry at that position, and its outliers are
  those the orchestrator computes with that entry's detection function.
\<close>

theorem runAllAnalyses_catalog_order:
  "length (runAllAnalyses ds) = 7 \<and>
   map methodName (runAllAnalyses ds) =
     [''Interquartile Range (IQR)'', ''Z-Score Method'', ''Modified Z-Score Method'',
      ''Grubbs' Test'', ''Generalized ESD Test'', ''Dixon's Q Test'', ''Peirce's Criterion''] \<and>
   map (\<lambda>r. (methodName r, r_description r)) (runAllAnalyses ds) =
     map (\<lambda>m. (name m, description m)) methods \<and>
   map outliers (runAllAnalyses ds) = map (\<lambda>m. outliers (analyse ds m)) methods \<and>
   map fn methods =
     [findOutliersIQR, \<lambda>columnData. findOutliersZScore columnData None,
      \<lambda>columnData. findOutliersModifiedZScore columnData None, findOutliersGrubbs,
      \<lambda>columnData. findOutliersESD columnData None, findOutliersDixonQ, findOutliersPeirce]"
  by (simp add: runAllAnalyses_def methods_def analyse_def)

lemma js_Set_fold:
  "set (foldl (\<lambda>s x. if x \<in> set s then s else s @ [x]) acc xs) = set acc \<union> set xs"
  "distinct acc \<Longrightarrow> distinct (foldl (\<lambda>s x. if x \<in> set s then s else s @ [x]) acc xs)"
  by (induction xs arbitrary: acc) auto

lemma set_js_Set: "set (js_Set xs) = set xs"
  by (simp add: js_Set_def js_Set_fold)

lemma distinct_js_Set: "distinct (js_Set xs)"
  by (simp add: js_Set_def js_Set_fold)

subsection \<open>The text of a composite key\<close>

text \<open>
  Different pairs of index and column have different texts: a number's text has no minus
  sign after its first character, so the last minus sign of a key is the separator.
\<close>

declare nat_string.simps [simp del]

lemma digit_inj: "a < 10 \<Longrightarrow> b < 10 \<Longrightarrow> digit a = digit b \<Longrightarrow> a = b"
proof -
  assume a: "a < 10" and b: "b < 10" and e: "digit a = digit b"
  have d: "distinct ''0123456789''" by simp
  have "a < length ''0123456789''" "b < length ''0123456789''" using a b by simp_all
  with d e show "a = b" unfolding digit_def by (simp only: nth_eq_iff_index_eq)
qed

lemma digit_not_minus: "d < 10 \<Longrightarrow> digit d \<noteq> CHR ''-''"
proof -
  assume "d < 10"
  then have "d < length ''0123456789''" by simp
  then have "digit d \<in> set ''0123456789''" unfolding digit_def by (rule nth_mem)
  then show ?thesis by auto
qed

lemma nat_string_nonempty: "nat_string n \<noteq> []"
  by (subst nat_string.simps) simp

lemma nat_string_no_minus: "CHR ''-'' \<notin> set (nat_string n)"
proof (induction n rule: nat_string.induct)
  case (1 n)
  show ?case
  proof (cases "n < 10")
    case True
    then show ?thesis using digit_not_minus[of n] by (subst nat_string.simps) auto
  next
    case False
    have "n mod 10 < 10" by simp
    from digit_not_minus[OF this] "1.IH"[OF False] False show ?thesis
      by (subst nat_string.simps) auto
  qed
qed

lemma nat_string_inj: "nat_string n = nat_string m \<Longrightarrow> n = m"
proof (induction n arbitrary: m rule: nat_string.induct)
  case (1 n)
  show ?case
  proof (cases "n < 10")
    case n: True
    show ?thesis
    proof (cases "m < 10")
      case True
      with n "1.prems" show ?thesis
        by (simp add: nat_string.simps[of n] nat_string.simps[of m] digit_inj)
    next
      case False
      with n "1.prems" nat_string_nonempty[of "m div 10"] show ?thesis
        by (simp add: nat_string.simps[of n] nat_string.simps[of m])
    qed
  next
    case n: False
    show ?thesis
    proof (cases "m < 10")
      case True
      with n "1.prems" nat_string_nonempty[of "n div 10"] show ?thesis
        by (simp add: nat_string.simps[of n] nat_string.simps[of m])
    next
      case False
      with n "1.prems" have e: "nat_string (n div 10) = nat_string (m div 10)"
        "digit (n mod 10) = digit (m mod 10)"
        by (simp_all add: nat_string.simps[of n] nat_string.simps[of m])
      from "1.IH"[OF n e(1)] have "n div 10 = m div 10" .
      moreover have "n mod 10 = m mod 10" using e(2) by (intro digit_inj) simp_all
      ultimately show ?thesis by (metis div_mult_mod_eq)
    qed
  qed
qed

lemma number_string_inj: "number_string a = number_string b \<Longrightarrow> a = b"
proof -
  assume e: "number_string a = number_string b"
  have hd: "hd (nat_string n) \<noteq> CHR ''-''" for n
    using nat_string_no_minus[of n] nat_string_nonempty[of n] by (cases "nat_string n") auto
  consider "a < 0" "b < 0" | "a < 0" "0 \<le> b" | "0 \<le> a" "b < 0" | "0 \<le> a" "0 \<le> b"
    by linarith
  then show "a = b"
  proof cases
    case 1
    with e have "nat (- a) = nat (- b)" by (auto simp: number_string_def dest: nat_string_inj)
    with 1 show ?thesis by simp
  next
    case 2
    with e have "CHR ''-'' # nat_string (nat (- a)) = nat_string (nat b)"
      by (simp add: number_string_def)
    then have "hd (nat_string (nat b)) = CHR ''-''" by (metis list.sel(1))
    with hd[of "nat b"] show ?thesis by simp
  next
    case 3
    with e have "CHR ''-'' # nat_string (nat (- b)) = nat_string (nat a)"
      by (simp add: number_string_def)
    then have "hd (nat_string (nat a)) = CHR ''-''" by (metis list.sel(1))
    with hd[of "nat a"] show ?thesis by simp
  next
    case 4
    with e have "nat a = nat b" by (auto simp: number_string_def dest: nat_string_inj)
    with 4 show ?thesis by simp
  qed
qed

lemma split_last_minus:
  assumes "X @ CHR ''-'' # Y = X' @ CHR ''-'' # Y'"
    and "CHR ''-'' \<notin> set Y" and "CHR ''-'' \<notin> set Y'"
  shows "X = X' \<and> Y = Y'"
  using assms by (auto simp: append_eq_append_conv2 Cons_eq_append_conv append_eq_Cons_conv)

lemma key_string_inj: "inj key_string"
proof (rule injI)
  fix k l :: "int \<times> nat"
  assume e: "key_string k = key_string l"
  have m: "CHR ''-'' \<notin> set (number_string (int n))" for n
    by (simp add: number_string_def nat_string_no_minus)
  from e have "number_string (fst k) @ CHR ''-'' # number_string (int (snd k)) =
      number_string (fst l) @ CHR ''-'' # number_string (int (snd l))"
    by (simp add: key_string_def)
  from split_last_minus[OF this m m] have "fst k = fst l \<and> snd k = snd l"
    by (auto dest: number_string_inj)
  then show "k = l" by (simp add: prod_eq_iff)
qed

subsection \<open>The map of one method\<close>

lemma find_index_present:
  "find (\<lambda>dp. dp_index dp = k) dps = None \<longleftrightarrow> k \<notin> dp_index ` set dps"
  by (auto simp: find_None_iff)

lemma find_index_Some:
  "find (\<lambda>dp. dp_index dp = k) dps = Some dp \<Longrightarrow> dp_index dp = k \<and> dp \<in> set dps"
  by (auto simp: find_Some_iff)

lemma add_outlier_keys:
  "map fst (add_outlier ds i M k) =
     (if k \<in> dp_index ` set (data ds) \<and> key_string (k, i) \<notin> set (map fst M)
      then map fst M @ [key_string (k, i)] else map fst M)"
proof (cases "find (\<lambda>dp. dp_index dp = k) (data ds)")
  case None
  then have "k \<notin> dp_index ` set (data ds)" by (simp add: find_index_present)
  with None show ?thesis by (simp add: add_outlier_def)
next
  case (Some dp)
  then have "dp_index dp = k" "k \<in> dp_index ` set (data ds)"
    using find_index_Some[OF Some] by auto
  with Some show ?thesis by (simp add: add_outlier_def Let_def key_string_def)
qed

lemma add_outlier_ok:
  assumes "list_all (entry_ok ds) M"
  shows "list_all (entry_ok ds) (add_outlier ds i M k)"
proof (cases "find (\<lambda>dp. dp_index dp = k) (data ds)")
  case None
  then show ?thesis using assms by (simp add: add_outlier_def)
next
  case (Some dp)
  then have k: "dp_index dp = k" using find_index_Some[OF Some] by simp
  show ?thesis
    using assms Some k
    by (simp add: add_outlier_def Let_def entry_ok_def record_of_def key_string_def
        composite_key_def)
qed

lemma fold_add_outlier:
  "set (map fst (foldl (add_outlier ds i) M ks)) =
     set (map fst M) \<union>
     {key_string (k, i) | k. k \<in> set ks \<and> k \<in> dp_index ` set (data ds)}"
  "distinct (map fst M) \<Longrightarrow> distinct (map fst (foldl (add_outlier ds i) M ks))"
  "list_all (entry_ok ds) M \<Longrightarrow> list_all (entry_ok ds) (foldl (add_outlier ds i) M ks)"
proof (induction ks arbitrary: M)
  case Nil
  { case 1 show ?case by simp }
  { case 2 then show ?case by simp }
  { case 3 then show ?case by simp }
next
  case (Cons k ks)
  { case 1 show ?case
      by (simp only: foldl.simps Cons.IH(1) add_outlier_keys) (auto split: if_splits) }
  { case 2 then show ?case
      by (simp only: foldl.simps) (rule Cons.IH(2), simp add: add_outlier_keys) }
  { case 3 then show ?case
      by (simp only: foldl.simps) (rule Cons.IH(3), rule add_outlier_ok) }
qed

lemma column_pass_props:
  "set (map fst (column_pass m ds M i)) =
     set (map fst M) \<union>
     {key_string (k, i) | k.
        k \<in> set (fn m (columnData_of ds i)) \<and> k \<in> dp_index ` set (data ds)}"
  "distinct (map fst M) \<Longrightarrow> distinct (map fst (column_pass m ds M i))"
  "list_all (entry_ok ds) M \<Longrightarrow> list_all (entry_ok ds) (column_pass m ds M i)"
  by (simp_all add: column_pass_def Let_def fold_add_outlier set_js_Set del: set_map)

lemma fold_column_pass:
  "set (map fst (foldl (column_pass m ds) M cols)) =
     set (map fst M) \<union>
     {key_string (k, i) | k i. i \<in> set cols \<and> k \<in> set (fn m (columnData_of ds i)) \<and>
        k \<in> dp_index ` set (data ds)}"
  "distinct (map fst M) \<Longrightarrow> distinct (map fst (foldl (column_pass m ds) M cols))"
  "list_all (entry_ok ds) M \<Longrightarrow> list_all (entry_ok ds) (foldl (column_pass m ds) M cols)"
proof (induction cols arbitrary: M)
  case Nil
  { case 1 show ?case by simp }
  { case 2 then show ?case by simp }
  { case 3 then show ?case by simp }
next
  case (Cons c cols)
  { case 1 show ?case
      by (simp only: foldl.simps Cons.IH(1) column_pass_props(1) list.set) blast }
  { case 2 then show ?case
      by (simp only: foldl.simps) (rule Cons.IH(2), rule column_pass_props(2)) }
  { case 3 then show ?case
      by (simp only: foldl.simps) (rule Cons.IH(3), rule column_pass_props(3)) }
qed

lemma entries_ok_keys:
  "list_all (entry_ok ds) M \<Longrightarrow> map key_string (map composite_key (map snd M)) = map fst M"
  by (induction M) (auto simp: entry_ok_def)

lemma analyse_outliers:
  "outliers (analyse ds m) = map snd (foldl (column_pass m ds) [] [0..<dimensions ds])"
  by (simp add: analyse_def Let_def)

lemma analyse_keys:
  "map key_string (map composite_key (outliers (analyse ds m))) =
     map fst (foldl (column_pass m ds) [] [0..<dimensions ds])"
  unfolding analyse_outliers
  by (rule entries_ok_keys[of ds]) (simp add: fold_column_pass(3))

lemma analyse_distinct: "distinct (map composite_key (outliers (analyse ds m)))"
proof -
  have "distinct (map key_string (map composite_key (outliers (analyse ds m))))"
    unfolding analyse_keys by (simp add: fold_column_pass(2))
  then show ?thesis by (simp only: distinct_map[of key_string]) 
qed

lemma analyse_key_set:
  "set (map composite_key (outliers (analyse ds m))) =
     {(k, i). i < dimensions ds \<and> k \<in> set (fn m (columnData_of ds i)) \<and>
        k \<in> dp_index ` set (data ds)}"
proof -
  let ?K = "{(k, i). i < dimensions ds \<and> k \<in> set (fn m (columnData_of ds i)) \<and>
        k \<in> dp_index ` set (data ds)}"
  have "set (map fst (foldl (column_pass m ds) [] [0..<dimensions ds])) =
     {key_string (k, i) | k i. i \<in> set [0..<dimensions ds] \<and>
        k \<in> set (fn m (columnData_of ds i)) \<and> k \<in> dp_index ` set (data ds)}"
    by (simp only: fold_column_pass(1)) simp
  also have "\<dots> = key_string ` ?K"
    by auto
  finally have "key_string ` set (map composite_key (outliers (analyse ds m))) = key_string ` ?K"
    by (simp only: analyse_keys[symmetric] set_map)
  then show ?thesis by (simp only: inj_image_eq_iff[OF key_string_inj])
qed

lemma analyse_records:
  assumes "r \<in> set (outliers (analyse ds m))"
  shows "\<exists>dp. find (\<lambda>dp. dp_index dp = o_index r) (data ds) = Some dp \<and>
           r = record_of dp (o_columnIndex r)"
proof -
  let ?M = "foldl (column_pass m ds) [] [0..<dimensions ds]"
  have ok: "list_all (entry_ok ds) ?M" by (simp add: fold_column_pass(3))
  from assms obtain e where e: "e \<in> set ?M" "r = snd e"
    unfolding analyse_outliers by auto
  with ok have "entry_ok ds e" by (simp add: list_all_iff)
  then show ?thesis
    unfolding entry_ok_def e(2)[symmetric]
    by (cases "find (\<lambda>dp. dp_index dp = o_index r) (data ds)") auto
qed

lemma count_distinct_key:
  assumes "distinct (map f xs)"
  shows "length (filter (\<lambda>x. f x = y) xs) = (if y \<in> set (map f xs) then 1 else 0)"
  using assms by (induction xs) (auto simp: filter_empty_conv)


lemma runAllAnalyses_nth:
  "j < length methods \<Longrightarrow> runAllAnalyses ds ! j = analyse ds (methods ! j)"
  by (simp add: runAllAnalyses_def)

lemma count_by_index:
  assumes "distinct (map composite_key rs)"
  shows "length (filter (\<lambda>r. o_index r = k) rs) =
           card {i. (k, i) \<in> set (map composite_key rs)}"
proof -
  let ?fs = "filter (\<lambda>r. o_index r = k) rs"
  have d: "distinct (map composite_key ?fs)"
    using assms by (rule distinct_map_filter)
  then have d2: "distinct (map o_columnIndex ?fs)"
  proof -
    have "inj_on composite_key (set ?fs)" using d by (simp add: distinct_map)
    then have "inj_on o_columnIndex (set ?fs)"
      by (auto simp: inj_on_def composite_key_def)
    moreover have "distinct ?fs" using d by (simp add: distinct_map)
    ultimately show ?thesis by (simp add: distinct_map)
  qed
  have "set (map o_columnIndex ?fs) = {i. (k, i) \<in> set (map composite_key rs)}"
    by (auto simp: composite_key_def image_iff)
  then have "card {i. (k, i) \<in> set (map composite_key rs)} = length (map o_columnIndex ?fs)"
    using distinct_card[OF d2] by simp
  then show ?thesis by simp
qed

text \<open>
  Claim C7. For a well-formed DataSet and each catalog method, the outliers of the method's
  entry of the report have pairwise different composite keys \<open>(index, columnIndex)\<close>: the
  orchestrator files each record under the text of its key and skips a text it already has.
  Every record is the record of a point of the DataSet for a column in which the method
  flags the point: its \<open>index\<close> is the point's row number, its \<open>value\<close> the point's value
  in that column, its \<open>point\<close> the point's full vector of values. A point has exactly one
  record for each column in which the method flags it and none for the other columns, so a
  point flagged in two columns has two records and a point flagged in one column has one.
\<close>

theorem runAllAnalyses_dedup:
  assumes "well_formed ds" and "j < length methods"
  shows
    "(let m = methods ! j;
          outs = outliers (runAllAnalyses ds ! j);
          flagged = (\<lambda>i. set (fn m (columnData_of ds i)))
      in distinct (map composite_key outs) \<and>
         (\<forall>r\<in>set outs. \<exists>dp\<in>set (data ds).
            r = record_of dp (o_columnIndex r) \<and> o_columnIndex r < length (dp_values dp) \<and>
            dp_index dp \<in> flagged (o_columnIndex r)) \<and>
         (\<forall>dp\<in>set (data ds). \<forall>i.
            length (filter (\<lambda>r. composite_key r = (dp_index dp, i)) outs) =
              (if i < dimensions ds \<and> dp_index dp \<in> flagged i then 1 else 0)) \<and>
         (\<forall>dp\<in>set (data ds).
            length (filter (\<lambda>r. o_index r = dp_index dp) outs) =
              card {i. i < dimensions ds \<and> dp_index dp \<in> flagged i}))"
proof -
  let ?m = "methods ! j"
  let ?outs = "outliers (analyse ds ?m)"
  let ?flagged = "\<lambda>i. set (fn ?m (columnData_of ds i))"
  have outs: "outliers (runAllAnalyses ds ! j) = ?outs"
    using assms(2) by (simp add: runAllAnalyses_nth)
  have d: "distinct (map composite_key ?outs)" by (rule analyse_distinct)
  have keys: "(k, i) \<in> set (map composite_key ?outs) \<longleftrightarrow>
      i < dimensions ds \<and> k \<in> ?flagged i \<and> k \<in> dp_index ` set (data ds)" for k i
    unfolding analyse_key_set by simp
  have len: "length (dp_values dp) = dimensions ds" if "dp \<in> set (data ds)" for dp
    using assms(1) that by (simp add: well_formed_def list_all_iff)
  have a: "\<exists>dp\<in>set (data ds).
            r = record_of dp (o_columnIndex r) \<and> o_columnIndex r < length (dp_values dp) \<and>
            dp_index dp \<in> ?flagged (o_columnIndex r)" if r: "r \<in> set ?outs" for r
  proof -
    from analyse_records[OF r] obtain dp where
      dp: "find (\<lambda>dp. dp_index dp = o_index r) (data ds) = Some dp"
          "r = record_of dp (o_columnIndex r)" by blast
    from find_index_Some[OF dp(1)] have in_data: "dp_index dp = o_index r" "dp \<in> set (data ds)"
      by simp_all
    from r have "(o_index r, o_columnIndex r) \<in> set (map composite_key ?outs)"
      by (force simp: composite_key_def)
    then have "o_columnIndex r < dimensions ds" "o_index r \<in> ?flagged (o_columnIndex r)"
      unfolding keys by simp_all
    with dp(2) in_data len[OF in_data(2)] show ?thesis by auto
  qed
  have b: "length (filter (\<lambda>r. composite_key r = (dp_index dp, i)) ?outs) =
              (if i < dimensions ds \<and> dp_index dp \<in> ?flagged i then 1 else 0)"
    if "dp \<in> set (data ds)" for dp i
    unfolding count_distinct_key[OF d] keys using that by simp
  have c: "length (filter (\<lambda>r. o_index r = dp_index dp) ?outs) =
              card {i. i < dimensions ds \<and> dp_index dp \<in> ?flagged i}"
    if "dp \<in> set (data ds)" for dp
    unfolding count_by_index[OF d] keys using that by simp
  from d a b c show ?thesis
    unfolding Let_def outs by blast
qed


lemma two_columns_sorted:
  "sort_ascending [Finite 10, Finite 12, Finite 11, Finite 13, Finite 12, Finite 100] =
     [Finite 10, Finite 11, Finite 12, Finite 12, Finite 13, Finite 100]"
  "sort_ascending [Finite 1, Finite 2, Finite 3, Finite (- 50), Finite 2, Finite 90] =
     [Finite (- 50), Finite 1, Finite 2, Finite 2, Finite 3, Finite 90]"
  by (simp_all add: sort_ascending_def)

lemma two_columns_iqr:
  "findOutliersIQR (columnData_of two_columns 0) = [5]"
  "findOutliersIQR (columnData_of two_columns (Suc 0)) = [3, 5]"
  by (simp_all add: findOutliersIQR_def columnData_of_def two_columns_def Let_def
      getStats_fields two_columns_sorted js_literal_def)

lemma two_columns_outliers:
  "outliers (runAllAnalyses two_columns ! 0) =
     [\<lparr>o_index = 5, o_value = Finite 100, o_point = [Finite 100, Finite 90], o_columnIndex = 0\<rparr>,
      \<lparr>o_index = 3, o_value = Finite (- 50), o_point = [Finite 13, Finite (- 50)],
       o_columnIndex = 1\<rparr>,
      \<lparr>o_index = 5, o_value = Finite 90, o_point = [Finite 100, Finite 90], o_columnIndex = 1\<rparr>]"
proof -
  have dims: "[0..<dimensions two_columns] = [0, 1]"
    by (simp add: two_columns_def upt_rec)
  have m: "fn (methods ! 0) = findOutliersIQR" by (simp add: methods_def)
  show ?thesis
    unfolding runAllAnalyses_def methods_def
    apply (simp add: analyse_def Let_def dims column_pass_def two_columns_iqr js_Set_def)
    apply (simp add: add_outlier_def two_columns_def Let_def number_string_def
        nat_string.simps digit_def)
    done
qed

theorem runAllAnalyses_dedup_witness:
  "well_formed two_columns \<and> (0 :: nat) < length methods \<and>
   length (filter (\<lambda>r. o_index r = 5) (outliers (runAllAnalyses two_columns ! 0))) = 2 \<and>
   length (filter (\<lambda>r. o_index r = 3) (outliers (runAllAnalyses two_columns ! 0))) = 1 \<and>
   map o_columnIndex (outliers (runAllAnalyses two_columns ! 0)) = [0, 1, 1] \<and>
   map o_value (outliers (runAllAnalyses two_columns ! 0)) = [Finite 100, Finite (- 50), Finite 90]"
proof -
  have wf: "well_formed two_columns" by (simp add: well_formed_def two_columns_def)
  have j: "(0 :: nat) < length methods" by (simp add: methods_def)
  from runAllAnalyses_dedup [OF wf j] wf j show ?thesis
    by (simp add: two_columns_outliers)
qed

subsection \<open>Rounding errors of a sum of equal terms\<close>

lemma eps_bounds: "0 < (2::real) powr (- 53)" "(2::real) powr (- 53) \<le> 1 / 2 ^ 53"
  "0 \<le> 1 - (2::real) powr (- 53)" "1 - (2::real) powr (- 53) \<le> 1"
proof -
  have "(2::real) powr (- real k) = 1 / 2 ^ k" for k
    by (simp add: powr_minus powr_realpow divide_inverse)
  from this[of 53] have e: "(2::real) powr (- 53) = 1 / 2 ^ 53" by simp
  show "0 < (2::real) powr (- 53)" by simp
  show "(2::real) powr (- 53) \<le> 1 / 2 ^ 53" by (simp only: e)
  show "0 \<le> 1 - (2::real) powr (- 53)" unfolding e by simp
  show "1 - (2::real) powr (- 53) \<le> 1" unfolding e by simp
qed

lemma min_subnormal_pos: "0 < min_subnormal"
  by (simp add: min_subnormal_def)

lemma f64_round_rel_grid:
  assumes "0 \<le> x" and "x = of_int k * min_subnormal"
  shows "x * (1 - 2 powr (- 53)) \<le> f64_round x"
proof (cases "2 powr (- 1022) \<le> x")
  case True
  then show ?thesis by (rule f64_round_rel)
next
  case False
  then have "\<bar>x\<bar> < 2 powr (- 1022)" using assms(1) by simp
  from f64_round_subnormal_exact[OF this assms(2)] have "f64_round x = x" .
  moreover have "x * (1 - 2 powr (- 53)) \<le> x * 1"
    by (rule mult_left_mono[OF eps_bounds(4) assms(1)])
  ultimately show ?thesis by simp
qed

lemma js_round_nonneg_cases:
  assumes "0 \<le> x"
  shows "js_round x = PosInf \<or> js_round x = Finite (f64_round x)"
proof -
  have "0 \<le> f64_round x" using assms by (rule f64_round_nonneg)
  then have "\<not> f64_round x \<le> - overflow_threshold" using overflow_threshold_pos by linarith
  then show ?thesis by (simp add: js_round_def Let_def)
qed

lemma foldl_add_PosInf:
  "foldl js_add PosInf (replicate n a) = PosInf" if "a = PosInf \<or> (\<exists>r. a = Finite r)"
  using that by (induction n) auto

lemma constant_sum:
  assumes "0 < r" and "r = of_int kr * min_subnormal"
  shows "foldl js_add (Finite 0) (replicate n (Finite r)) = PosInf \<or>
     (\<exists>\<sigma> k. foldl js_add (Finite 0) (replicate n (Finite r)) = Finite \<sigma> \<and>
        \<sigma> = of_int k * min_subnormal \<and>
        real n * r * (1 - 2 powr (- 53)) ^ n \<le> \<sigma>)"
proof (induction n)
  case 0
  have "(0::real) = of_int 0 * min_subnormal" by simp
  then show ?case by auto
next
  case (Suc n)
  let ?e = "1 - (2::real) powr (- 53)"
  let ?S = "foldl js_add (Finite 0) (replicate n (Finite r))"
  have "replicate (Suc n) (Finite r) = replicate n (Finite r) @ [Finite r]"
    by (simp add: replicate_append_same)
  then have step: "foldl js_add (Finite 0) (replicate (Suc n) (Finite r)) = js_add ?S (Finite r)"
    by (simp only: foldl_append foldl.simps)
  from Suc consider "?S = PosInf"
    | \<sigma> k where "?S = Finite \<sigma>" "\<sigma> = of_int k * min_subnormal" "real n * r * ?e ^ n \<le> \<sigma>"
    by blast
  then show ?case
  proof cases
    case 1
    then show ?thesis unfolding step by simp
  next
    case 2
    have en: "0 \<le> ?e ^ n" "?e ^ n \<le> 1"
      using eps_bounds(3,4) by (simp_all add: power_le_one)
    have nn: "0 \<le> real n * r * ?e ^ n" using assms(1) en(1) by simp
    then have s0: "0 \<le> \<sigma>" using 2(3) by linarith
    have grid: "\<sigma> + r = of_int (k + kr) * min_subnormal"
      using 2(2) assms(2) by (simp add: algebra_simps)
    have pos: "0 \<le> \<sigma> + r" using s0 assms(1) by linarith
    have low: "(\<sigma> + r) * ?e \<le> f64_round (\<sigma> + r)"
      by (rule f64_round_rel_grid[OF pos grid])
    have "r * ?e ^ n \<le> r * 1" by (rule mult_left_mono[OF en(2)]) (use assms(1) in simp)
    then have "real (Suc n) * r * ?e ^ n \<le> \<sigma> + r"
      using 2(3) by (simp add: algebra_simps)
    then have "real (Suc n) * r * ?e ^ n * ?e \<le> (\<sigma> + r) * ?e"
      by (rule mult_right_mono[OF _ eps_bounds(3)])
    with low have "real (Suc n) * r * ?e ^ n * ?e \<le> f64_round (\<sigma> + r)" by linarith
    moreover have "real (Suc n) * r * ?e ^ Suc n = real (Suc n) * r * ?e ^ n * ?e"
      by (simp only: power_Suc2 mult.assoc)
    ultimately have bound: "real (Suc n) * r * ?e ^ Suc n \<le> f64_round (\<sigma> + r)"
      by (simp only:)
    obtain k' :: int where mult: "f64_round (\<sigma> + r) = of_int k' * min_subnormal"
      using f64_round_multiple by blast
    have "js_add ?S (Finite r) = js_round (\<sigma> + r)" by (simp add: 2(1))
    with js_round_nonneg_cases[OF pos]
    have "js_add ?S (Finite r) = PosInf \<or> js_add ?S (Finite r) = Finite (f64_round (\<sigma> + r))"
      by simp
    with bound mult show ?thesis unfolding step by blast
  qed
qed

lemma retained_fraction:
  assumes "n < 2 ^ 32"
  shows "9 / 16 \<le> (1 - (2::real) powr (- 53)) ^ (n + 2)"
proof -
  let ?x = "- ((2::real) powr (- 53))"
  have x: "- 1 \<le> ?x" using eps_bounds(3) by simp
  have b: "1 + real (n + 2) * ?x \<le> (1 + ?x) ^ (n + 2)"
    by (rule Bernoulli_inequality[OF x])
  have "real (n + 2) \<le> 2 ^ 33"
  proof -
    have "n + 2 \<le> 2 ^ 33" using assms by simp
    then have "real (n + 2) \<le> real (2 ^ 33)" by (simp only: of_nat_le_iff)
    then show ?thesis by simp
  qed
  then have "real (n + 2) * 2 powr (- 53) \<le> 2 ^ 33 * (1 / 2 ^ 53)"
    by (intro mult_mono eps_bounds(2)) simp_all
  also have "\<dots> \<le> (7 / 16 :: real)" by simp
  finally have "real (n + 2) * 2 powr (- 53) \<le> 7 / 16" .
  then have "9 / 16 \<le> 1 + real (n + 2) * ?x" by simp
  with b show ?thesis by simp
qed

lemma sqrt_normal:
  assumes "0 < u" and "u = of_int k * min_subnormal"
  shows "2 powr (- 1022) \<le> sqrt u"
proof -
  have "0 < k" using assms min_subnormal_pos by (simp add: zero_less_mult_iff)
  then have "(1::real) \<le> of_int k" by linarith
  then have "1 * min_subnormal \<le> of_int k * min_subnormal"
    by (intro mult_right_mono) (use min_subnormal_pos in simp_all)
  then have u: "2 powr (- 1074) \<le> u" using assms(2) by (simp add: min_subnormal_def)
  have "(2::real) powr (- 537) * 2 powr (- 537) = 2 powr (- 537 + - 537)"
    by (rule powr_add[symmetric])
  then have sq: "((2::real) powr (- 537))\<^sup>2 = 2 powr (- 1074)"
    by (simp add: power2_eq_square)
  have "(2::real) powr (- 537) \<le> sqrt u"
    by (rule real_le_rsqrt) (use u sq in simp)
  moreover have "(2::real) powr (- 1022) \<le> 2 powr (- 537)"
    by (rule powr_mono) simp_all
  ultimately show ?thesis by linarith
qed

text \<open>
  The standard deviation that \<^const>\<open>getStats\<close> computes from \<open>n\<close> equal squared
  deviations \<open>\<rho>\<close>.
\<close>

lemma constant_deviation_sd:
  assumes "0 < n" and "n < 2 ^ 32" and "0 < r" and "r = of_int kr * min_subnormal"
  shows "js_sqrt (js_div (foldl js_add (Finite 0) (replicate n (Finite r))) (Finite (real n)))
           \<in> {PosInf, Finite 0} \<or>
         (\<exists>w. js_sqrt (js_div (foldl js_add (Finite 0) (replicate n (Finite r)))
                        (Finite (real n))) = Finite w \<and>
              0 < w \<and> 2 / 3 * r * (1 - 2 powr (- 53)) ^ (n + 2) \<le> w\<^sup>2)"
proof -
  let ?e = "1 - (2::real) powr (- 53)"
  let ?S = "foldl js_add (Finite 0) (replicate n (Finite r))"
  have n0: "real n \<noteq> 0" "0 < real n" using assms(1) by simp_all
  from constant_sum[OF assms(3,4), of n] consider "?S = PosInf"
    | \<sigma> where "?S = Finite \<sigma>" "real n * r * ?e ^ n \<le> \<sigma>"
    by blast
  then show ?thesis
  proof cases
    case 1
    then show ?thesis using n0 by (simp add: js_div_def)
  next
    case 2
    have en: "0 < ?e ^ n"
    proof -
      have "9 / 16 \<le> ?e ^ (n + 2)" by (rule retained_fraction[OF assms(2)])
      then have "0 < ?e ^ (n + 2)" by linarith
      then have "?e \<noteq> 0" by (metis power_eq_0_iff less_irrefl add_2_eq_Suc' zero_less_Suc)
      with eps_bounds(3) have "0 < ?e" by linarith
      then show ?thesis by simp
    qed
    have lowpos: "0 < real n * r * ?e ^ n" using n0(2) assms(3) en by simp
    then have sp: "0 < \<sigma>" using 2(2) by linarith
    then have qp: "0 < \<sigma> / real n" using n0(2) by simp
    have d: "js_div ?S (Finite (real n)) = js_round (\<sigma> / real n)"
      using n0(1) by (simp add: 2(1))
    let ?u = "f64_round (\<sigma> / real n)"
    from js_round_nonneg_cases[of "\<sigma> / real n"] qp
    consider "js_round (\<sigma> / real n) = PosInf" | "js_round (\<sigma> / real n) = Finite ?u"
      by fastforce
    then show ?thesis
    proof cases
      case 1
      then show ?thesis unfolding d by simp
    next
      case u: 2
      have u0: "0 \<le> ?u" using qp by (intro f64_round_nonneg) simp
      show ?thesis
      proof (cases "?u = 0")
        case True
        then show ?thesis unfolding d u by simp
      next
        case False
        then have up: "0 < ?u" using u0 by linarith
        have crude: "2 / 3 * (\<sigma> / real n) \<le> ?u" by (rule f64_round_crude[OF qp up])
        obtain ku :: int where ku: "?u = of_int ku * min_subnormal"
          using f64_round_multiple by blast
        have norm: "2 powr (- 1022) \<le> sqrt ?u" by (rule sqrt_normal[OF up ku])
        have rel: "sqrt ?u * ?e \<le> f64_round (sqrt ?u)" by (rule f64_round_rel[OF norm])
        let ?w = "f64_round (sqrt ?u)"
        have sq0: "0 < sqrt ?u" using up by simp
        have e0: "0 < ?e"
        proof -
          have "?e \<noteq> 0" using en by (metis power_eq_0_iff less_irrefl zero_power assms(1) not_gr_zero)
          with eps_bounds(3) show ?thesis by linarith
        qed
        have "0 < sqrt ?u * ?e" using sq0 e0 by (rule mult_pos_pos)
        with rel have wp: "0 < ?w" by linarith
        have "(sqrt ?u * ?e)\<^sup>2 \<le> ?w\<^sup>2"
          by (rule power_mono[OF rel]) (use sq0 e0 in simp)
        then have w2: "?u * ?e\<^sup>2 \<le> ?w\<^sup>2" using u0 by (simp add: power_mult_distrib)
        have "r * ?e ^ n \<le> \<sigma> / real n"
          using 2(2) n0(2) by (simp add: field_simps)
        then have "2 / 3 * (r * ?e ^ n) \<le> ?u" using crude by linarith
        then have "2 / 3 * (r * ?e ^ n) * ?e\<^sup>2 \<le> ?u * ?e\<^sup>2"
          by (rule mult_right_mono) simp
        with w2 have "2 / 3 * (r * ?e ^ n) * ?e\<^sup>2 \<le> ?w\<^sup>2" by linarith
        moreover have "2 / 3 * r * ?e ^ (n + 2) = 2 / 3 * (r * ?e ^ n) * ?e\<^sup>2"
          by (simp only: power_add mult.assoc)
        ultimately have fin: "2 / 3 * r * ?e ^ (n + 2) \<le> ?w\<^sup>2"
          by (simp only:)
        have "js_sqrt (Finite ?u) = js_round (sqrt ?u)" using u0 by simp
        moreover have "js_round (sqrt ?u) = PosInf \<or> js_round (sqrt ?u) = Finite ?w"
          by (rule js_round_nonneg_cases) (use u0 in simp)
        ultimately
        have "js_sqrt (Finite ?u) = PosInf \<or> js_sqrt (Finite ?u) = Finite ?w" by simp
        with wp fin show ?thesis unfolding d u by auto
      qed
    qed
  qed
qed

subsection \<open>Columns of identical values\<close>

lemma constant_list:
  assumes "\<forall>x\<in>set xs. x = v"
  shows "xs = replicate (length xs) v"
  using assms by (induction xs) auto

lemma sort_ascending_replicate: "sort_ascending (replicate n v) = replicate n v"
  unfolding sort_ascending_def by (induction n) (simp_all add: insort_is_Cons)

lemma reduce_add_zeros: "foldl js_add (Finite 0) (replicate n (Finite 0)) = Finite 0"
  by (induction n) simp_all

lemma reduce_add_PosInf:
  assumes "0 < n"
  shows "foldl js_add (Finite 0) (replicate n PosInf) = PosInf"
proof -
  from assms obtain m where n: "n = Suc m" by (cases n) auto
  show ?thesis unfolding n by (simp add: foldl_add_PosInf)
qed

lemma getStats_replicate:
  assumes "0 < n"
  shows "q1 (getStats (replicate n (Finite x))) = Finite x"
    and "q3 (getStats (replicate n (Finite x))) = Finite x"
    and "median (getStats (replicate n (Finite x))) = Finite x"
    and "iqr (getStats (replicate n (Finite x))) = Finite 0"
    and "mad (getStats (replicate n (Finite x))) = Finite 0"
    and "stdDev (getStats (replicate n (Finite x))) =
           js_sqrt (js_div (foldl js_add (Finite 0)
                              (replicate n (js_pow2 (js_sub (Finite x)
                                 (mean (getStats (replicate n (Finite x))))))))
                      (Finite (real n)))"
proof -
  let ?xs = "replicate n (Finite x)"
  have ne: "?xs \<noteq> []" using assms by simp
  have a: "n div 4 < n" "n div 2 < n" "n * 3 div 4 < n" using assms by arith+
  note f = getStats_fields[OF ne]
  show q1: "q1 (getStats ?xs) = Finite x"
    unfolding f(1) sort_ascending_replicate length_replicate using a(1) by simp
  show q3: "q3 (getStats ?xs) = Finite x"
    unfolding f(2) sort_ascending_replicate length_replicate using a(3) by simp
  show med: "median (getStats ?xs) = Finite x"
    unfolding f(3) sort_ascending_replicate length_replicate using a(2) by simp
  show "iqr (getStats ?xs) = Finite 0"
    unfolding f(4) q1 q3 by simp
  have r: "map (\<lambda>y. js_abs (js_sub y (Finite x))) ?xs = replicate n (Finite 0)" by simp
  show "mad (getStats ?xs) = Finite 0"
    unfolding f(7) med r sort_ascending_replicate length_replicate using a(2) by simp
  show "stdDev (getStats ?xs) =
           js_sqrt (js_div (foldl js_add (Finite 0)
                              (replicate n (js_pow2 (js_sub (Finite x) (mean (getStats ?xs))))))
                      (Finite (real n)))"
    by (subst f(6)) (simp add: reduce_add_def js_of_nat_def)
qed

text \<open>
  The score of an entry of a constant column is \<^verbatim>\<open>NaN\<close> or at most 2, unless the standard
  deviation is 0: the deviation \<open>D\<close> of every entry from the mean is the same, and the
  standard deviation is the rounded root of the rounded mean of \<open>n\<close> rounded squares of
  \<open>D\<close>.
\<close>

lemma quotient_small:
  assumes "0 < w" and "\<bar>\<delta>\<bar> \<le> 2 * w"
  shows "\<exists>q. js_div (Finite \<delta>) (Finite w) = Finite q \<and> \<bar>q\<bar> \<le> 2"
proof -
  have "\<bar>\<delta> / w\<bar> = \<bar>\<delta>\<bar> / w" using assms(1) by simp
  also have "\<dots> \<le> 2" using assms by (simp add: field_simps)
  finally have "\<bar>\<delta> / w\<bar> \<le> 2 ^ 1" by simp
  from js_round_bounded_ex[OF this] obtain q where "js_round (\<delta> / w) = Finite q" "\<bar>q\<bar> \<le> 2"
    by auto
  then show ?thesis using assms(1) by simp
qed

lemma constant_scores:
  assumes "0 < n" and "n < 2 ^ 32"
  shows "(let s = getStats (replicate n (Finite x)); D = js_sub (Finite x) (mean s)
          in stdDev s = Finite 0 \<or>
             (js_abs (js_div D (stdDev s)) = NaN \<or>
              (\<exists>q. js_abs (js_div D (stdDev s)) = Finite q \<and> q \<le> 2)) \<and>
             (js_div (js_abs D) (stdDev s) = NaN \<or>
              (\<exists>q. js_div (js_abs D) (stdDev s) = Finite q \<and> q \<le> 2)))"
proof -
  let ?s = "getStats (replicate n (Finite x))"
  let ?D = "js_sub (Finite x) (mean ?s)"
  let ?e = "1 - (2::real) powr (- 53)"
  have n0: "real n \<noteq> 0" "\<not> real n < 0" using assms(1) by simp_all
  note sd = getStats_replicate(6)[OF assms(1), of x]
  have inf: "js_sqrt (js_div (foldl js_add (Finite 0) (replicate n PosInf)) (Finite (real n)))
      = PosInf"
    unfolding reduce_add_PosInf[OF assms(1)] using n0 by (simp add: js_div_def)
  have goal: "stdDev ?s = Finite 0 \<or>
             (js_abs (js_div ?D (stdDev ?s)) = NaN \<or>
              (\<exists>q. js_abs (js_div ?D (stdDev ?s)) = Finite q \<and> q \<le> 2)) \<and>
             (js_div (js_abs ?D) (stdDev ?s) = NaN \<or>
              (\<exists>q. js_div (js_abs ?D) (stdDev ?s) = Finite q \<and> q \<le> 2))"
  proof (cases ?D)
    case NaN
    then show ?thesis by (simp add: js_div_def)
  next
    case PosInf
    then have "stdDev ?s = PosInf" unfolding sd by (simp add: js_pow2_def js_mul_def js_negative_def inf)
    with PosInf show ?thesis by (simp add: js_div_def)
  next
    case NegInf
    then have "stdDev ?s = PosInf" unfolding sd by (simp add: js_pow2_def js_mul_def js_negative_def inf)
    with NegInf show ?thesis by (simp add: js_div_def)
  next
    case (Finite \<delta>)
    have big: ?thesis if "stdDev ?s = PosInf"
      using that Finite by (simp add: js_div_def)
    have sq: "0 \<le> \<delta> * \<delta>" by simp
    let ?r = "f64_round (\<delta> * \<delta>)"
    have rho: "js_pow2 ?D = PosInf \<or> js_pow2 ?D = Finite ?r"
      using js_round_nonneg_cases[OF sq] by (simp add: Finite)
    then show ?thesis
    proof
      assume "js_pow2 ?D = PosInf"
      then have "stdDev ?s = PosInf" unfolding sd by (simp add: inf)
      then show ?thesis by (rule big)
    next
      assume rf: "js_pow2 ?D = Finite ?r"
      have r0: "0 \<le> ?r" by (rule f64_round_nonneg[OF sq])
      show ?thesis
      proof (cases "?r = 0")
        case True
        then have "stdDev ?s = Finite 0"
          unfolding sd rf using n0 by (simp add: reduce_add_zeros)
        then show ?thesis by simp
      next
        case False
        then have rp: "0 < ?r" using r0 by linarith
        then have dnz: "\<delta> \<noteq> 0" by (metis f64_round_0 mult_zero_left less_irrefl)
        then have sqp: "0 < \<delta> * \<delta>" by (simp add: zero_less_mult_iff) linarith
        have crude: "2 / 3 * (\<delta> * \<delta>) \<le> ?r" by (rule f64_round_crude[OF sqp rp])
        obtain kr :: int where kr: "?r = of_int kr * min_subnormal"
          using f64_round_multiple by blast
        from constant_deviation_sd[OF assms rp kr]
        consider "stdDev ?s = PosInf" | "stdDev ?s = Finite 0"
          | w where "stdDev ?s = Finite w" "0 < w" "2 / 3 * ?r * ?e ^ (n + 2) \<le> w\<^sup>2"
          unfolding sd rf by auto
        then show ?thesis
        proof cases
          case 1
          then show ?thesis by (rule big)
        next
          case 2
          then show ?thesis by simp
        next
          case 3
          have frac: "9 / 16 \<le> ?e ^ (n + 2)" by (rule retained_fraction[OF assms(2)])
          have "2 / 3 * (2 / 3 * (\<delta> * \<delta>)) * (9 / 16) \<le> 2 / 3 * ?r * ?e ^ (n + 2)"
            by (intro mult_mono crude frac) (use rp in simp_all)
          with 3(3) have "\<delta> * \<delta> \<le> 4 * w\<^sup>2" by simp
          then have "\<bar>\<delta>\<bar>\<^sup>2 \<le> (2 * w)\<^sup>2" by (simp add: power2_eq_square)
          then have le: "\<bar>\<delta>\<bar> \<le> 2 * w"
            by (rule power2_le_imp_le) (use 3(2) in simp)
          from quotient_small[OF 3(2), of \<delta>] le obtain q1 where
            q1: "js_div (Finite \<delta>) (Finite w) = Finite q1" "\<bar>q1\<bar> \<le> 2" by auto
          from quotient_small[OF 3(2), of "\<bar>\<delta>\<bar>"] le obtain q2 where
            q2: "js_div (Finite \<bar>\<delta>\<bar>) (Finite w) = Finite q2" "\<bar>q2\<bar> \<le> 2" by auto
          have "js_abs (js_div ?D (stdDev ?s)) = Finite \<bar>q1\<bar>"
            unfolding Finite 3(1) q1(1) by simp
          moreover have "js_div (js_abs ?D) (stdDev ?s) = Finite q2"
            unfolding Finite 3(1) js_abs.simps q2(1) by simp
          moreover have "q2 \<le> 2" using q2(2) by linarith
          ultimately show ?thesis using q1(2) by blast
        qed
      qed
    qed
  qed
  then show ?thesis unfolding Let_def .
qed

lemma constant_values:
  assumes "\<forall>d\<in>set columnData. d_value d = v"
  shows "map d_value columnData = replicate (length columnData) v"
proof -
  have "\<forall>x\<in>set (map d_value columnData). x = v" using assms by simp
  from constant_list[OF this] show ?thesis by simp
qed

lemma constant_column_stats:
  assumes "\<forall>d\<in>set columnData. d_value d = Finite x"
  shows "iqr (getStats (map d_value columnData)) = Finite 0"
    and "mad (getStats (map d_value columnData)) = Finite 0"
    and "columnData \<noteq> [] \<Longrightarrow> q1 (getStats (map d_value columnData)) = Finite x"
    and "columnData \<noteq> [] \<Longrightarrow> q3 (getStats (map d_value columnData)) = Finite x"
proof -
  note v = constant_values[OF assms]
  show "iqr (getStats (map d_value columnData)) = Finite 0"
  proof (cases "columnData = []")
    case True
    then show ?thesis by (simp add: getStats_def)
  next
    case False
    then show ?thesis unfolding v by (intro getStats_replicate(4)) simp
  qed
  show "mad (getStats (map d_value columnData)) = Finite 0"
  proof (cases "columnData = []")
    case True
    then show ?thesis by (simp add: getStats_def)
  next
    case False
    then show ?thesis unfolding v by (intro getStats_replicate(5)) simp
  qed
  show "columnData \<noteq> [] \<Longrightarrow> q1 (getStats (map d_value columnData)) = Finite x"
    by (simp add: v getStats_replicate(1))
  show "columnData \<noteq> [] \<Longrightarrow> q3 (getStats (map d_value columnData)) = Finite x"
    by (simp add: v getStats_replicate(2))
qed

lemma constant_column_scores:
  assumes "\<forall>d\<in>set columnData. d_value d = Finite x" and "columnData \<noteq> []"
    and "length columnData < 2 ^ 32" and "d \<in> set columnData" and "2 \<le> t"
    and "\<not> js_eq (stdDev (getStats (map d_value columnData))) (Finite 0)"
  shows "\<not> js_gt (js_abs (js_div (js_sub (d_value d) (mean (getStats (map d_value columnData))))
                          (stdDev (getStats (map d_value columnData)))))
             (Finite t)"
    and "\<not> js_gt (zdev (mean (getStats (map d_value columnData)))
                   (stdDev (getStats (map d_value columnData))) d)
             (Finite t)"
proof -
  let ?s = "getStats (map d_value columnData)"
  have n: "0 < length columnData" using assms(2) by simp
  have d: "d_value d = Finite x" using assms(1,4) by simp
  have sd: "stdDev ?s \<noteq> Finite 0" using assms(6) by (auto simp: js_eq_def)
  from constant_scores[OF n assms(3), of x] sd
  have a: "js_abs (js_div (js_sub (Finite x) (mean ?s)) (stdDev ?s)) = NaN \<or>
           (\<exists>q. js_abs (js_div (js_sub (Finite x) (mean ?s)) (stdDev ?s)) = Finite q \<and> q \<le> 2)"
    and b: "js_div (js_abs (js_sub (Finite x) (mean ?s))) (stdDev ?s) = NaN \<or>
           (\<exists>q. js_div (js_abs (js_sub (Finite x) (mean ?s))) (stdDev ?s) = Finite q \<and> q \<le> 2)"
    unfolding Let_def constant_values[OF assms(1)] by blast+
  from a show "\<not> js_gt (js_abs (js_div (js_sub (d_value d) (mean ?s)) (stdDev ?s))) (Finite t)"
    unfolding d using assms(5) by (auto simp: js_gt_def js_lt_def)
  from b show "\<not> js_gt (zdev (mean ?s) (stdDev ?s) d) (Finite t)"
    unfolding zdev_def d using assms(5) by (auto simp: js_gt_def js_lt_def)
qed

lemma constant_IQR:
  assumes "\<forall>d\<in>set columnData. d_value d = Finite x" and "finite_double (Finite x)"
  shows "findOutliersIQR columnData = []"
proof (cases "columnData = []")
  case True
  then show ?thesis by (simp add: findOutliersIQR_def)
next
  case False
  note st = constant_column_stats[OF assms(1)]
  have r: "js_round x = Finite x"
    using assms(2) by (intro js_round_exact) (simp_all add: finite_double_def)
  show ?thesis
    using assms(1)
    by (simp add: findOutliersIQR_def Let_def st(1) st(3)[OF False] st(4)[OF False]
        filter_empty_conv js_literal_def r)
qed

lemma constant_ZScore:
  assumes "\<forall>d\<in>set columnData. d_value d = Finite x" and "length columnData < 2 ^ 32"
  shows "findOutliersZScore columnData None = []"
proof (cases "columnData = []")
  case True
  then show ?thesis by (simp add: findOutliersZScore_def Let_def)
next
  case False
  have three: "js_literal 3.0 = Finite 3" by (simp add: js_literal_def)
  show ?thesis
  proof (cases "js_eq (stdDev (getStats (map d_value columnData))) (Finite 0)")
    case True
    then show ?thesis by (simp add: findOutliersZScore_def Let_def)
  next
    case sd: False
    have "\<not> js_gt (js_abs (js_div (js_sub (d_value d) (mean (getStats (map d_value columnData))))
                          (stdDev (getStats (map d_value columnData)))))
             (Finite 3)" if "d \<in> set columnData" for d
      by (rule constant_column_scores(1)[OF assms(1) False assms(2) that _ sd]) simp
    then show ?thesis
      unfolding findOutliersZScore_def Let_def option.case three
      by (simp add: filter_empty_conv)
  qed
qed

lemma constant_ModifiedZScore:
  assumes "\<forall>d\<in>set columnData. d_value d = Finite x"
  shows "findOutliersModifiedZScore columnData t = []"
  by (simp add: findOutliersModifiedZScore_def Let_def constant_column_stats(2)[OF assms])

lemma constant_Grubbs:
  assumes "\<forall>d\<in>set columnData. d_value d = Finite x" and "length columnData < 2 ^ 32"
  shows "findOutliersGrubbs columnData = []"
proof (cases "length columnData < 3 \<or>
    js_eq (stdDev (getStats (map d_value columnData))) (Finite 0)")
  case True
  then show ?thesis by (auto simp add: findOutliersGrubbs_def Let_def)
next
  case False
  then have n: "3 \<le> length columnData"
    and sd: "\<not> js_eq (stdDev (getStats (map d_value columnData))) (Finite 0)" by simp_all
  let ?s = "getStats (map d_value columnData)"
  let ?devs = "map (zdev (mean ?s) (stdDev ?s)) columnData"
  have ne: "columnData \<noteq> []" using n by auto
  then have j: "max_pos ?devs < length columnData" using max_pos_props(1)[of ?devs] by simp
  then have mem: "columnData ! max_pos ?devs \<in> set columnData" by simp
  have two: "js_literal 2.0 = Finite 2" by (simp add: js_literal_def)
  have "\<not> js_gt (zdev (mean ?s) (stdDev ?s) (columnData ! max_pos ?devs)) (Finite 2)"
    by (rule constant_column_scores(2)[OF assms(1) ne assms(2) mem _ sd]) simp
  then have "\<not> js_gt (?devs ! max_pos ?devs) (js_literal 2.0)"
    unfolding two using j by simp
  then show ?thesis
    unfolding findOutliersGrubbs_eq[OF n sd] Let_def by simp
qed

lemma constant_esd_loop:
  assumes "\<forall>d\<in>set columnData. d_value d = Finite x" and "length columnData < 2 ^ 32"
  shows "esd_loop k columnData recorded = recorded"
proof (cases k)
  case 0
  then show ?thesis by simp
next
  case (Suc k')
  let ?s = "getStats (map d_value columnData)"
  let ?devs = "map (zdev (mean ?s) (stdDev ?s)) columnData"
  have half: "js_literal 2.5 = Finite (5 / 2)" by (simp add: js_literal_def)
  have stop: "length columnData < 3 \<or> js_eq (stdDev ?s) (Finite 0) \<or>
      \<not> js_gt (?devs ! max_pos ?devs) (js_literal 2.5)"
  proof (cases "length columnData < 3 \<or> js_eq (stdDev ?s) (Finite 0)")
    case True
    then show ?thesis by blast
  next
    case False
    then have n: "3 \<le> length columnData" and sd: "\<not> js_eq (stdDev ?s) (Finite 0)" by simp_all
    have ne: "columnData \<noteq> []" using n by auto
    then have j: "max_pos ?devs < length columnData" using max_pos_props(1)[of ?devs] by simp
    then have mem: "columnData ! max_pos ?devs \<in> set columnData" by simp
    have "\<not> js_gt (zdev (mean ?s) (stdDev ?s) (columnData ! max_pos ?devs)) (Finite (5 / 2))"
      by (rule constant_column_scores(2)[OF assms(1) ne assms(2) mem _ sd]) simp
    then show ?thesis unfolding half using j by simp
  qed
  show ?thesis
    unfolding Suc esd_loop_Suc Let_def using stop by (simp only: if_True)
qed

lemma constant_ESD:
  assumes "\<forall>d\<in>set columnData. d_value d = Finite x" and "length columnData < 2 ^ 32"
  shows "findOutliersESD columnData m = []"
  by (simp add: findOutliersESD_def Let_def constant_esd_loop[OF assms])

lemma constant_DixonQ:
  assumes "\<forall>d\<in>set columnData. d_value d = Finite x"
  shows "findOutliersDixonQ columnData = []"
proof (cases "length columnData < 3 \<or> length columnData > 30")
  case True
  then show ?thesis by (rule findOutliersDixonQ_outside)
next
  case False
  then have n: "3 \<le> length columnData" "length columnData \<le> 30" by auto
  let ?s = "sort_by_value columnData"
  have c: "\<forall>d\<in>set ?s. d_value d = Finite x" using assms by (simp add: sort_by_value_props(4))
  have len: "length ?s = length columnData" by (rule sort_by_value_props(3))
  have "?s ! (length columnData - 1) \<in> set ?s" "?s ! 0 \<in> set ?s"
    by (rule nth_mem, use n len in linarith)+
  with c have "d_value (?s ! (length columnData - 1)) = Finite x" "d_value (?s ! 0) = Finite x"
    by blast+
  then have "js_sub (d_value (?s ! (length columnData - 1))) (d_value (?s ! 0)) = Finite 0"
    by simp
  then show ?thesis
    using findOutliersDixonQ_eq[OF n] by (simp add: Let_def)
qed

subsection \<open>Three times a tenth\<close>

lemma two_powr_neg: "(2::real) powr (- real k) = 1 / 2 ^ k"
  by (simp add: powr_minus powr_realpow divide_inverse)

lemma f64_round_below_one:
  assumes "0 < k" and "k \<le> 1022" and "1 / 2 ^ k \<le> \<bar>x\<bar>" and "\<bar>x\<bar> < 2 / 2 ^ k"
  shows "f64_round x = of_int (round_half_even (x * 2 ^ (k + 52))) / 2 ^ (k + 52)"
proof -
  have "0 < 1 / (2::real) ^ k" by simp
  with assms(3) have pos: "0 < \<bar>x\<bar>" by linarith
  then have nz: "x \<noteq> 0" by auto
  have p1: "(2::real) powr (of_int (- int k)) = 1 / 2 ^ k"
    using two_powr_neg[of k] by simp
  have p2: "(2::real) powr (of_int (- int k) + 1) = 2 / 2 ^ k"
  proof -
    have "(2::real) powr (of_int (- int k) + 1) = 2 powr (of_int (- int k)) * 2 powr 1"
      by (rule powr_add)
    then show ?thesis by (simp add: two_powr_neg)
  qed
  have "\<lfloor>log 2 \<bar>x\<bar>\<rfloor> = - int k"
    using assms(3,4) p1 p2 by (subst floor_log_eq_powr_iff[OF pos]) simp_all
  then have e: "binade x = - int k" using assms(2) by (simp add: binade_def)
  have u: "ulp x = 1 / 2 ^ (k + 52)"
  proof -
    have "of_int (- int k) - 52 = - real (k + 52)" by simp
    then show ?thesis unfolding ulp_def e by (simp only: two_powr_neg)
  qed
  show ?thesis
    unfolding f64_round_def u using nz by simp
qed

lemma js_round_below_one:
  assumes "0 < k" and "k \<le> 1022" and "1 / 2 ^ k \<le> \<bar>x\<bar>" and "\<bar>x\<bar> < 2 / 2 ^ k"
  shows "js_round x = Finite (of_int (round_half_even (x * 2 ^ (k + 52))) / 2 ^ (k + 52))"
proof -
  have "(2::real) ^ 1 \<le> 2 ^ k" using assms(1) by (intro power_increasing) simp_all
  then have "2 / 2 ^ k \<le> (1::real)" by (simp add: field_simps)
  with assms(4) have "\<bar>x\<bar> \<le> 1" by linarith
  then have "\<bar>x\<bar> \<le> 2 ^ 0" by simp
  from js_round_bounded(1)[OF this] show ?thesis
    by (simp add: f64_round_below_one[OF assms])
qed

lemma tenth_value: "tenth = Finite (7205759403792794 / 2 ^ 56)"
  unfolding tenth_def js_literal_def
  by (subst js_round_below_one[where k = 4]) (simp_all add: round_half_even_def Let_def)

lemma tenth_finite: "finite_double tenth"
proof -
  have a: "\<bar>7205759403792794 :: int\<bar> < 2 ^ 53" by simp
  have "f64_round (of_int 7205759403792794 / 2 ^ 56) = of_int 7205759403792794 / 2 ^ 56"
    by (rule f64_round_dyadic[OF a]) simp
  moreover have "\<bar>7205759403792794 / 2 ^ 56 :: real\<bar> < overflow_threshold"
  proof -
    have "\<bar>7205759403792794 / 2 ^ 56 :: real\<bar> < 2 ^ 53" by simp
    with pow1024 show ?thesis by linarith
  qed
  ultimately show ?thesis unfolding tenth_value finite_double_def by simp
qed

lemma sum1:
  "js_add (Finite 0) (Finite (7205759403792794 / 2 ^ 56)) = Finite (7205759403792794 / 2 ^ 56)"
  unfolding js_add.simps
  by (subst js_round_below_one[where k = 4]) (simp_all add: round_half_even_def Let_def)

lemma sum2:
  "js_add (Finite (7205759403792794 / 2 ^ 56)) (Finite (7205759403792794 / 2 ^ 56)) =
     Finite (7205759403792794 / 2 ^ 55)"
  unfolding js_add.simps
  by (subst js_round_below_one[where k = 3]) (simp_all add: round_half_even_def Let_def)

lemma sum3:
  "js_add (Finite (7205759403792794 / 2 ^ 55)) (Finite (7205759403792794 / 2 ^ 56)) =
     Finite (5404319552844596 / 2 ^ 54)"
  unfolding js_add.simps
  by (subst js_round_below_one[where k = 2]) (simp_all add: round_half_even_def Let_def)

lemma mean3:
  "js_div (Finite (5404319552844596 / 2 ^ 54)) (Finite (real 3)) =
     Finite (7205759403792795 / 2 ^ 56)"
proof -
  have "js_div (Finite (5404319552844596 / 2 ^ 54)) (Finite (real 3)) =
      js_round (5404319552844596 / 2 ^ 54 / real 3)"
    by (rule js_div_Finite) simp
  also have "\<dots> = Finite (7205759403792795 / 2 ^ 56)"
    by (subst js_round_below_one[where k = 4]) (simp_all add: round_half_even_def Let_def)
  finally show ?thesis .
qed

lemma diff3:
  "js_sub (Finite (7205759403792794 / 2 ^ 56)) (Finite (7205759403792795 / 2 ^ 56)) =
     Finite (- (1 / 2 ^ 56))"
  unfolding js_sub_Finite
  by (subst js_round_below_one[where k = 56]) (simp_all add: round_half_even_def Let_def)

lemma square3: "js_pow2 (Finite (- (1 / 2 ^ 56))) = Finite (1 / 2 ^ 112)"
  unfolding js_pow2_Finite
  by (subst js_round_below_one[where k = 112]) (simp_all add: round_half_even_def Let_def)

lemma sq_sum1: "js_add (Finite 0) (Finite (1 / 2 ^ 112)) = Finite (1 / 2 ^ 112)"
  unfolding js_add.simps
  by (subst js_round_below_one[where k = 112]) (simp_all add: round_half_even_def Let_def)

lemma sq_sum2: "js_add (Finite (1 / 2 ^ 112)) (Finite (1 / 2 ^ 112)) = Finite (1 / 2 ^ 111)"
  unfolding js_add.simps
  by (subst js_round_below_one[where k = 111]) (simp_all add: round_half_even_def Let_def)

lemma sq_sum3: "js_add (Finite (1 / 2 ^ 111)) (Finite (1 / 2 ^ 112)) = Finite (3 / 2 ^ 112)"
  unfolding js_add.simps
  by (subst js_round_below_one[where k = 111]) (simp_all add: round_half_even_def Let_def)

lemma variance3: "js_div (Finite (3 / 2 ^ 112)) (Finite (real 3)) = Finite (1 / 2 ^ 112)"
proof -
  have "js_div (Finite (3 / 2 ^ 112)) (Finite (real 3)) = js_round (3 / 2 ^ 112 / real 3)"
    by (rule js_div_Finite) simp
  also have "\<dots> = Finite (1 / 2 ^ 112)"
    by (subst js_round_below_one[where k = 112]) (simp_all add: round_half_even_def Let_def)
  finally show ?thesis .
qed

lemma sqrt3: "js_sqrt (Finite (1 / 2 ^ 112)) = Finite (1 / 2 ^ 56)"
proof -
  have s: "sqrt (1 / 2 ^ 112) = 1 / 2 ^ 56"
    by (rule real_sqrt_unique) (simp_all add: power_divide)
  have "js_sqrt (Finite (1 / 2 ^ 112)) = js_round (1 / 2 ^ 56)"
    unfolding js_sqrt.simps s by simp
  also have "\<dots> = Finite (1 / 2 ^ 56)"
    by (subst js_round_below_one[where k = 56]) (simp_all add: round_half_even_def Let_def)
  finally show ?thesis .
qed

lemma three_values_stdDev:
  "stdDev (getStats [a, a, a]) =
     js_sqrt (js_div
       (js_add (js_add (js_add (Finite 0)
          (js_pow2 (js_sub a (js_div (js_add (js_add (js_add (Finite 0) a) a) a) (Finite (real 3))))))
          (js_pow2 (js_sub a (js_div (js_add (js_add (js_add (Finite 0) a) a) a) (Finite (real 3))))))
          (js_pow2 (js_sub a (js_div (js_add (js_add (js_add (Finite 0) a) a) a) (Finite (real 3))))))
       (Finite (real 3)))"
proof -
  have ne: "[a, a, a] \<noteq> []" by simp
  have len: "length [a, a, a] = 3" by simp
  show ?thesis
    unfolding getStats_fields(6)[OF ne] getStats_fields(5)[OF ne] len reduce_add_def
      js_of_nat_def list.map foldl.simps
    by (rule refl)
qed

lemma three_tenths_stdDev:
  "stdDev (getStats [tenth, tenth, tenth]) = Finite (1 / 2 ^ 56)"
  unfolding three_values_stdDev tenth_value sum1 sum2 sum3 mean3 diff3 square3
    sq_sum1 sq_sum2 sq_sum3 variance3 sqrt3
  by (rule refl)

lemma infinite_values_iqr: "iqr (getStats [PosInf, PosInf, PosInf]) = NaN"
  by (simp add: getStats_def Let_def sort_ascending_def floor_div_eq js_sub_def)

text \<open>
  Claim C6, as stated: on every column of identical values the standard deviation, the
  \<open>iqr\<close> and the \<open>mad\<close> are 0. The standard deviation is not: for three times
  \<^verbatim>\<open>0.1\<close> the sum rounds to \<^verbatim>\<open>0.30000000000000004\<close> and the mean to
  \<^verbatim>\<open>0.10000000000000002\<close>, one unit in the last place above the values, and the standard
  deviation is \<open>2\<^sup>-\<^sup>5\<^sup>6\<close>. And when the repeated value is an infinity, the \<open>iqr\<close> is
  the difference of two infinities, \<^verbatim>\<open>NaN\<close>.
\<close>

theorem identical_values_stdDev_counterexample:
  "map d_value three_tenths = [tenth, tenth, tenth] \<and> finite_double tenth \<and>
   \<not> js_eq (stdDev (getStats (map d_value three_tenths))) (Finite 0) \<and>
   \<not> js_eq (iqr (getStats [PosInf, PosInf, PosInf])) (Finite 0)"
  by (simp add: three_tenths_def three_tenths_stdDev tenth_finite infinite_values_iqr js_eq_def)

text \<open>
  Claim C6, amended. On every column whose values are all the same finite binary64 number
  (a column has fewer than \<open>2\<^sup>3\<^sup>2\<close> entries, the bound of an array), \<open>iqr\<close> and \<open>mad\<close>
  are 0 and each of the seven detection methods returns the empty list; the standard
  deviation need not be 0. Where it is not 0, the score \<open>|value - mean| / stdDev\<close> of every
  entry is \<^verbatim>\<open>NaN\<close> or at most 2, below each threshold of the methods that use it.
\<close>

theorem constant_column_no_outliers:
  assumes "\<forall>d\<in>set columnData. d_value d = v" and "finite_double v"
    and "length columnData < 2 ^ 32"
  shows "iqr (getStats (map d_value columnData)) = Finite 0 \<and>
         mad (getStats (map d_value columnData)) = Finite 0 \<and>
         findOutliersIQR columnData = [] \<and>
         findOutliersZScore columnData None = [] \<and>
         findOutliersModifiedZScore columnData None = [] \<and>
         findOutliersGrubbs columnData = [] \<and>
         findOutliersESD columnData None = [] \<and>
         findOutliersDixonQ columnData = [] \<and>
         findOutliersPeirce columnData = [] \<and>
         list_all (\<lambda>m. fn m columnData = []) methods \<and>
         (js_eq (stdDev (getStats (map d_value columnData))) (Finite 0) \<or>
          (\<forall>d\<in>set columnData.
             \<not> js_gt (zdev (mean (getStats (map d_value columnData)))
                         (stdDev (getStats (map d_value columnData))) d)
                   (Finite 2)))"
proof -
  from assms(2) obtain x where v: "v = Finite x" by (cases v) (simp_all add: finite_double_def)
  have c: "\<forall>d\<in>set columnData. d_value d = Finite x" using assms(1) v by simp
  have f: "finite_double (Finite x)" using assms(2) v by simp
  have s: "js_eq (stdDev (getStats (map d_value columnData))) (Finite 0) \<or>
          (\<forall>d\<in>set columnData.
             \<not> js_gt (zdev (mean (getStats (map d_value columnData)))
                         (stdDev (getStats (map d_value columnData))) d)
                   (Finite 2))"
  proof (cases "js_eq (stdDev (getStats (map d_value columnData))) (Finite 0)")
    case True
    then show ?thesis by blast
  next
    case False
    have "\<not> js_gt (zdev (mean (getStats (map d_value columnData)))
                         (stdDev (getStats (map d_value columnData))) d)
                   (Finite 2)" if d: "d \<in> set columnData" for d
    proof -
      have ne: "columnData \<noteq> []" using d by auto
      show ?thesis
        by (rule constant_column_scores(2)[OF c ne assms(3) d _ False]) simp
    qed
    then show ?thesis by blast
  qed
  from constant_column_stats(1,2)[OF c] constant_IQR[OF c f] constant_ZScore[OF c assms(3)]
    constant_ModifiedZScore[OF c] constant_Grubbs[OF c assms(3)] constant_ESD[OF c assms(3)]
    constant_DixonQ[OF c] s
  show ?thesis
    by (simp add: methods_def findOutliersPeirce_def)
qed

theorem constant_column_no_outliers_witness:
  "map d_value five_fives = [Finite 5, Finite 5, Finite 5, Finite 5, Finite 5] \<and>
   finite_double (Finite 5) \<and> length five_fives < 2 ^ 32 \<and>
   iqr (getStats (map d_value five_fives)) = Finite 0 \<and>
   mad (getStats (map d_value five_fives)) = Finite 0 \<and>
   findOutliersIQR five_fives = [] \<and> findOutliersZScore five_fives None = [] \<and>
   findOutliersGrubbs five_fives = [] \<and> findOutliersESD five_fives None = [] \<and>
   findOutliersDixonQ five_fives = [] \<and> findOutliersPeirce five_fives = []"
proof -
  have a: "\<forall>d\<in>set five_fives. d_value d = Finite 5" by (simp add: five_fives_def)
  have b: "finite_double (Finite 5)" by simp
  have c: "length five_fives < 2 ^ 32" by (simp add: five_fives_def)
  from constant_column_no_outliers[OF a b c] b c show ?thesis
    by (simp add: five_fives_def)
qed

subsection \<open>The default number of rounds of the ESD test\<close>

lemma f64_round_between:
  assumes "\<bar>x\<bar> < 2 powr (of_int c)" and "max (c - 1) (- 1022) - 52 \<le> j"
  shows "of_int a * 2 powr (of_int j) \<le> x \<Longrightarrow> of_int a * 2 powr (of_int j) \<le> f64_round x"
    and "x \<le> of_int b * 2 powr (of_int j) \<Longrightarrow> f64_round x \<le> of_int b * 2 powr (of_int j)"
proof -
  have g: "\<exists>N :: int. 2 powr (of_int j) = of_int N * ulp x" if "x \<noteq> 0"
  proof -
    from binade_le[OF that assms(1)] assms(2) have "binade x - 52 \<le> j" by simp
    from ulp_divides[OF this] show ?thesis by blast
  qed
  show "of_int a * 2 powr (of_int j) \<le> f64_round x" if h: "of_int a * 2 powr (of_int j) \<le> x"
  proof (cases "x = 0")
    case True
    with h show ?thesis by simp
  next
    case False
    from g[OF False] obtain N :: int where N: "2 powr (of_int j) = of_int N * ulp x" by blast
    have e: "of_int a * 2 powr (of_int j) = of_int (a * N) * ulp x" by (simp add: N)
    show ?thesis using h unfolding e by (rule f64_round_ge_grid)
  qed
  show "f64_round x \<le> of_int b * 2 powr (of_int j)" if h: "x \<le> of_int b * 2 powr (of_int j)"
  proof (cases "x = 0")
    case True
    with h show ?thesis by simp
  next
    case False
    from g[OF False] obtain N :: int where N: "2 powr (of_int j) = of_int N * ulp x" by blast
    have e: "of_int b * 2 powr (of_int j) = of_int (b * N) * ulp x" by (simp add: N)
    show ?thesis using h unfolding e by (rule f64_round_le_grid)
  qed
qed

text \<open>
  \<^verbatim>\<open>Math.floor(columnData.length * 0.1)\<close> in binary64: the literal is rounded, the product
  is rounded, and the floor is that of the exact tenth of the length.
\<close>

lemma maxOutliers_rounded:
  assumes "n < 2 ^ 32"
  shows "\<exists>y. js_mul (js_of_nat n) (js_literal 0.1) = Finite y \<and>
              nat \<lfloor>y\<rfloor> = nat \<lfloor>real n * 0.1\<rfloor>"
proof -
  let ?t = "7205759403792794 / 2 ^ 56 :: real"
  let ?x = "real n * ?t"
  let ?k = "n div 10"
  let ?y = "f64_round ?x"
  have lit: "js_literal 0.1 = Finite ?t"
    using tenth_value by (simp add: tenth_def)
  have n: "real n < 2 ^ 32"
  proof -
    have "real n < real (2 ^ 32)" using assms by (simp only: of_nat_less_iff)
    then show ?thesis by simp
  qed
  have split: "real n = 10 * real ?k + real (n mod 10)"
  proof -
    have a: "10 * ?k + n mod 10 = n" by simp
    have "real (10 * ?k + n mod 10) = 10 * real ?k + real (n mod 10)"
      by (simp only: of_nat_add of_nat_mult of_nat_numeral)
    then show ?thesis unfolding a .
  qed
  have m: "real (n mod 10) \<le> 9"
  proof -
    have "n mod 10 \<le> 9" by simp
    then have "real (n mod 10) \<le> real 9" by (simp only: of_nat_le_iff)
    then show ?thesis by simp
  qed
  have k0: "0 \<le> real ?k" and m0: "0 \<le> real (n mod 10)" by simp_all
  have x: "?x = real ?k + real ?k / 2 ^ 54 + real (n mod 10) * ?t"
    by (subst split) (simp add: algebra_simps)
  have kn: "real ?k \<le> 2 ^ 32" using split n m0 k0 by linarith
  have lo: "real ?k \<le> ?x" unfolding x using k0 m0 by simp
  have "real ?k / 2 ^ 54 \<le> 2 ^ 32 / 2 ^ 54" using kn by (simp add: divide_right_mono)
  moreover have "real (n mod 10) * ?t \<le> 9 * ?t" using m by (intro mult_right_mono) simp_all
  ultimately have hi: "?x \<le> real ?k + 15 / 16" unfolding x by simp
  have x0: "0 \<le> ?x" by simp
  have "?x < 2 ^ 33" using hi kn by simp
  then have bound: "\<bar>?x\<bar> < 2 powr (of_int 33)" using x0 by (simp add: powr_realpow)
  have p4: "(2::real) powr (of_int (- 4)) = 1 / 16"
    using two_powr_neg[of 4] by simp
  have "of_int (16 * int ?k) * 2 powr (of_int (- 4)) \<le> ?x"
    unfolding p4 using lo by simp
  from f64_round_between(1)[OF bound _ this]
  have ylo: "real ?k \<le> ?y" unfolding p4 by simp
  have "?x \<le> of_int (16 * int ?k + 15) * 2 powr (of_int (- 4))"
    unfolding p4 using hi by simp
  from f64_round_between(2)[OF bound _ this]
  have yhi: "?y \<le> real ?k + 15 / 16" unfolding p4 by simp
  have fl: "\<lfloor>?y\<rfloor> = int ?k"
    by (rule floor_unique) (use ylo yhi in simp_all)
  have "\<bar>?y\<bar> < overflow_threshold"
  proof -
    have "\<bar>?y\<bar> \<le> 2 ^ 32 + 1" using ylo yhi kn k0 by simp
    also have "\<dots> < 2 ^ 53" by simp
    finally show ?thesis using pow1024 by linarith
  qed
  then have "js_round ?x = Finite ?y"
    unfolding js_round_def Let_def by (simp add: abs_less_iff not_le) linarith?
  then have "js_mul (js_of_nat n) (js_literal 0.1) = Finite ?y"
    unfolding lit js_of_nat_def by simp
  moreover have "nat \<lfloor>?y\<rfloor> = nat \<lfloor>real n * 0.1\<rfloor>"
    unfolding fl floor_tenth by simp
  ultimately show ?thesis by blast
qed

end
